theory Spec2Isabelle
  imports Complex_Main "HOL-Library.Word" "HOL-Library.Multiset"
begin

section \<open>The eigenvalue driver of simple-transport (src/eigenvalue.c)\<close>

text \<open>
  A shallow embedding of \<^verbatim>\<open>synchronize_bank\<close>, \<^verbatim>\<open>shannon_entropy\<close>,
  \<^verbatim>\<open>mean_squared_distance\<close>, \<^verbatim>\<open>calculate_keff\<close> and the loop nest of
  \<^verbatim>\<open>run_eigenvalue\<close>.

  Conventions of the embedding.
  \<^item> The headers \<^verbatim>\<open>simple_mc.h\<close> and \<^verbatim>\<open>global.h\<close> are not part of the sources, so
    the struct types are read off the accesses the C code makes: a bank is its live
    count \<^verbatim>\<open>n\<close> and its particle array \<^verbatim>\<open>p\<close> (the list's length is the capacity
    \<^verbatim>\<open>sz\<close>). Record fields are global constants in HOL, so the one-letter field
    names of the C structs carry a prefix (\<open>bank_n\<close>, \<open>bank_p\<close>, \<open>p_x\<close>).
  \<^item> \<^verbatim>\<open>unsigned long\<close> indices and counts are \<open>nat\<close>; the one place where the C
    arithmetic wraps on a legal input (\<^verbatim>\<open>b->n - 1\<close> for an empty bank) is computed
    on \<open>64 word\<close>.
  \<^item> The random number generator (\<^verbatim>\<open>rni\<close>, \<^verbatim>\<open>rn_skip\<close>, \<^verbatim>\<open>set_stream\<close>) and the
    transport kernel are not part of the sources. They are parameters: \<open>rni\<close> maps
    a generator state and the two bounds to the integer drawn and the next state.
  \<^item> A \<^verbatim>\<open>double\<close> is a real number or one of the IEEE-754 special values (type
    \<open>double\<close> below); signed zeros are not distinguished. The arithmetic of
    \<^verbatim>\<open>calculate_keff\<close>, of \<^verbatim>\<open>shannon_entropy\<close> and of the driver's \<open>keff_batch\<close> is
    exact. The arithmetic of \<^verbatim>\<open>mean_squared_distance\<close>, whose result depends on the
    order of its additions, rounds every operation to binary64 (round to nearest,
    ties to even, with gradual underflow and overflow to infinity).
\<close>

section \<open>The program\<close>

subsection \<open>Doubles\<close>

datatype double = Finite real | PosInf | NegInf | NaN

text \<open>Addition, subtraction, \<^verbatim>\<open>pow(x, 2)\<close>, \<^verbatim>\<open>sqrt\<close> and division on the special values
  follow IEEE 754. Every divisor of the program is an integer converted to
  \<^verbatim>\<open>double\<close>, so a zero divisor is \<open>+0\<close> and the sign of the quotient is the sign of
  the dividend.\<close>

fun d_add :: "double \<Rightarrow> double \<Rightarrow> double" where
  "d_add (Finite a) (Finite b) = Finite (a + b)"
| "d_add NaN _ = NaN"
| "d_add _ NaN = NaN"
| "d_add PosInf NegInf = NaN"
| "d_add NegInf PosInf = NaN"
| "d_add PosInf _ = PosInf"
| "d_add NegInf _ = NegInf"
| "d_add _ PosInf = PosInf"
| "d_add _ NegInf = NegInf"

fun d_neg :: "double \<Rightarrow> double" where
  "d_neg (Finite a) = Finite (- a)"
| "d_neg PosInf = NegInf"
| "d_neg NegInf = PosInf"
| "d_neg NaN = NaN"

definition d_sub :: "double \<Rightarrow> double \<Rightarrow> double" where
  "d_sub a b = d_add a (d_neg b)"

fun d_pow2 :: "double \<Rightarrow> double" where
  "d_pow2 (Finite a) = Finite (a ^ 2)"
| "d_pow2 PosInf = PosInf"
| "d_pow2 NegInf = PosInf"
| "d_pow2 NaN = NaN"

fun d_sqrt :: "double \<Rightarrow> double" where
  "d_sqrt (Finite a) = (if a < 0 then NaN else Finite (sqrt a))"
| "d_sqrt PosInf = PosInf"
| "d_sqrt NegInf = NaN"
| "d_sqrt NaN = NaN"

fun d_div :: "double \<Rightarrow> double \<Rightarrow> double" where
  "d_div (Finite a) (Finite b) =
     (if b \<noteq> 0 then Finite (a / b)
      else if a = 0 then NaN
      else if 0 < a then PosInf else NegInf)"
| "d_div NaN _ = NaN"
| "d_div _ NaN = NaN"
| "d_div (Finite a) PosInf = Finite 0"
| "d_div (Finite a) NegInf = Finite 0"
| "d_div PosInf (Finite b) = (if 0 \<le> b then PosInf else NegInf)"
| "d_div NegInf (Finite b) = (if 0 \<le> b then NegInf else PosInf)"
| "d_div _ _ = NaN"

text \<open>Multiplication on the special values.\<close>

fun d_mul :: "double \<Rightarrow> double \<Rightarrow> double" where
  "d_mul (Finite a) (Finite b) = Finite (a * b)"
| "d_mul NaN _ = NaN"
| "d_mul _ NaN = NaN"
| "d_mul PosInf (Finite b) = (if b = 0 then NaN else if 0 < b then PosInf else NegInf)"
| "d_mul NegInf (Finite b) = (if b = 0 then NaN else if 0 < b then NegInf else PosInf)"
| "d_mul (Finite a) PosInf = (if a = 0 then NaN else if 0 < a then PosInf else NegInf)"
| "d_mul (Finite a) NegInf = (if a = 0 then NaN else if 0 < a then NegInf else PosInf)"
| "d_mul PosInf PosInf = PosInf"
| "d_mul NegInf NegInf = PosInf"
| "d_mul PosInf NegInf = NegInf"
| "d_mul NegInf PosInf = NegInf"

subsection \<open>Rounding to binary64\<close>

text \<open>The integer nearest to \<open>x\<close>, the even one of the two when \<open>x\<close> lies half-way.\<close>

definition round_even :: "real \<Rightarrow> int" where
  "round_even x =
     (let f = \<lfloor>x\<rfloor>; r = x - of_int f
      in if r < 1 / 2 then f else if 1 / 2 < r then f + 1 else if even f then f else f + 1)"

text \<open>The binary64 number nearest to a real \<open>x\<close>. A number with binary exponent
  \<open>e = \<lfloor>log\<^sub>2 |x|\<rfloor>\<close> has a significand of 53 bits, so it is rounded to a multiple of
  \<open>2^(e - 52)\<close>; below the least normal number \<open>2^(-1022)\<close> the spacing stays
  \<open>2^(-1074)\<close>; a result of magnitude \<open>2^1024\<close> or more is an infinity.\<close>

definition round64 :: "real \<Rightarrow> double" where
  "round64 x =
     (if x = 0 then Finite 0
      else
        let e = max \<lfloor>log 2 \<bar>x\<bar>\<rfloor> (- 1022);
            q = 2 powr of_int (e - 52);
            y = of_int (round_even (x / q)) * q
        in if 2 ^ 1024 \<le> \<bar>y\<bar> then (if 0 < x then PosInf else NegInf) else Finite y)"

text \<open>The four operations of binary64 arithmetic: the exact result, rounded.\<close>

definition rounded :: "double \<Rightarrow> double" where
  "rounded d = (case d of Finite v \<Rightarrow> round64 v | _ \<Rightarrow> d)"

definition fl_add :: "double \<Rightarrow> double \<Rightarrow> double" where
  "fl_add a b = rounded (d_add a b)"

definition fl_sub :: "double \<Rightarrow> double \<Rightarrow> double" where
  "fl_sub a b = rounded (d_sub a b)"

definition fl_mul :: "double \<Rightarrow> double \<Rightarrow> double" where
  "fl_mul a b = rounded (d_mul a b)"

definition fl_div :: "double \<Rightarrow> double \<Rightarrow> double" where
  "fl_div a b = rounded (d_div a b)"

subsection \<open>Banks and the simulation state\<close>

record 'a bank =
  bank_n :: nat
  bank_p :: "'a list"

text \<open>The source bank is passed to every function; the fission bank and the generator
  state are globals of the C program.\<close>

record ('a, 'r) sim =
  source_bank :: "'a bank"
  fission_bank :: "'a bank"
  rng :: 'r

type_synonym 'r rni = "'r \<Rightarrow> nat \<Rightarrow> nat \<Rightarrow> nat \<times> 'r"

subsection \<open>\<^verbatim>\<open>synchronize_bank\<close> (eigenvalue.c, lines 178 to 220)\<close>

text \<open>\<^verbatim>\<open>memcpy(&dst[off], src, k*sizeof(Particle))\<close>.\<close>

definition memcpy_at :: "'a list \<Rightarrow> nat \<Rightarrow> 'a list \<Rightarrow> nat \<Rightarrow> 'a list" where
  "memcpy_at dst off src k = take off dst @ take k src @ drop (off + k) dst"

text \<open>The loop of lines 194 to 199; \<open>sp\<close> is the source bank's array, \<open>fp\<close> the fission
  bank's.\<close>

function reservoir_loop ::
  "'r rni \<Rightarrow> 'a list \<Rightarrow> nat \<Rightarrow> nat \<Rightarrow> nat \<Rightarrow> 'a list \<Rightarrow> 'r \<Rightarrow> 'a list \<times> 'r" where
  "reservoir_loop rni fp n_s n_f i sp r =
     (if i < n_f then
        (case rni r 0 (i + 1) of (j, r') \<Rightarrow>
           reservoir_loop rni fp n_s n_f (i + 1)
             (if j < n_s then sp[j := fp ! i] else sp) r')
      else (sp, r))"
  by pat_completeness auto
termination
  by (relation "measure (\<lambda>(rni, fp, n_s, n_f, i, sp, r). n_f - i)") auto

declare reservoir_loop.simps [simp del]

text \<open>The loop of lines 208 to 211.\<close>

function oversample_loop ::
  "'r rni \<Rightarrow> 'a list \<Rightarrow> nat \<Rightarrow> nat \<Rightarrow> nat \<Rightarrow> 'a list \<Rightarrow> 'r \<Rightarrow> 'a list \<times> 'r" where
  "oversample_loop rni fp n_s n_f i sp r =
     (if i < n_s - n_f then
        (case rni r 0 n_f of (j, r') \<Rightarrow>
           oversample_loop rni fp n_s n_f (i + 1) (sp[i := fp ! j]) r')
      else (sp, r))"
  by pat_completeness auto
termination
  by (relation "measure (\<lambda>(rni, fp, n_s, n_f, i, sp, r). (n_s - n_f) - i)") auto

declare oversample_loop.simps [simp del]

definition synchronize_bank :: "'r rni \<Rightarrow> ('a, 'r) sim \<Rightarrow> ('a, 'r) sim" where
  "synchronize_bank rni st =
     (let n_s = bank_n (source_bank st);
          n_f = bank_n (fission_bank st);
          fp = bank_p (fission_bank st);
          sp = bank_p (source_bank st);
          (sp', r') =
            (if n_f \<ge> n_s then
               reservoir_loop rni fp n_s n_f n_s (memcpy_at sp 0 fp n_s) (rng st)
             else
               (case oversample_loop rni fp n_s n_f 0 sp (rng st) of
                  (sp1, r1) \<Rightarrow> (memcpy_at sp1 (n_s - n_f) fp n_f, r1)))
      in st\<lparr>source_bank := (source_bank st)\<lparr>bank_p := sp'\<rparr>,
            fission_bank := (fission_bank st)\<lparr>bank_n := 0\<rparr>,
            rng := r'\<rparr>)"

subsection \<open>\<^verbatim>\<open>calculate_keff\<close> (eigenvalue.c, lines 295 to 315)\<close>

text \<open>The two loops over \<open>i = 0, ..., n - 1\<close>; \<open>n\<close> and \<open>i\<close> are C \<^verbatim>\<open>int\<close>s.\<close>

function keff_sum_loop :: "double list \<Rightarrow> int \<Rightarrow> int \<Rightarrow> double \<Rightarrow> double" where
  "keff_sum_loop keff n i mean =
     (if i < n then keff_sum_loop keff n (i + 1) (d_add mean (keff ! nat i)) else mean)"
  by pat_completeness auto
termination
  by (relation "measure (\<lambda>(keff, n, i, mean). nat (n - i))") auto

declare keff_sum_loop.simps [simp del]

function keff_sq_loop :: "double list \<Rightarrow> double \<Rightarrow> int \<Rightarrow> int \<Rightarrow> double \<Rightarrow> double" where
  "keff_sq_loop keff mean n i std =
     (if i < n
      then keff_sq_loop keff mean n (i + 1) (d_add std (d_pow2 (d_sub (keff ! nat i) mean)))
      else std)"
  by pat_completeness auto
termination
  by (relation "measure (\<lambda>(keff, mean, n, i, std). nat (n - i))") auto

declare keff_sq_loop.simps [simp del]

text \<open>The result is the pair of \<^verbatim>\<open>*mean\<close> and \<^verbatim>\<open>*std\<close>. The divisors \<^verbatim>\<open>n\<close> and
  \<^verbatim>\<open>n-1\<close> are integers converted to \<^verbatim>\<open>double\<close>.\<close>

definition calculate_keff :: "double list \<Rightarrow> int \<Rightarrow> double \<times> double" where
  "calculate_keff keff n =
     (let mean = d_div (keff_sum_loop keff n 0 (Finite 0)) (Finite (of_int n));
          std = d_sqrt (d_div (keff_sq_loop keff mean n 0 (Finite 0)) (Finite (of_int (n - 1))))
      in (mean, std))"

subsection \<open>\<^verbatim>\<open>mean_squared_distance\<close> (eigenvalue.c, lines 269 to 293)\<close>

text \<open>The position of a particle; the diagnostics read no other field.\<close>

record particle =
  p_x :: real
  p_y :: real
  p_z :: real

text \<open>The summand of line 284,
  \<^verbatim>\<open>(p->x - q->x)*(p->x - q->x) + (p->y - q->y)*(p->y - q->y) + (p->z - q->z)*(p->z - q->z)\<close>,
  in binary64 arithmetic: three differences, three products and two additions, from
  left to right.\<close>

definition pair_term :: "particle \<Rightarrow> particle \<Rightarrow> double" where
  "pair_term p q =
     (let dx = fl_sub (Finite (p_x p)) (Finite (p_x q));
          dy = fl_sub (Finite (p_y p)) (Finite (p_y q));
          dz = fl_sub (Finite (p_z p)) (Finite (p_z q))
      in fl_add (fl_add (fl_mul dx dx) (fl_mul dy dy)) (fl_mul dz dz))"

text \<open>The two loops of lines 278 to 287; \<open>msd\<close> is the accumulator.\<close>

function msd_inner :: "particle list \<Rightarrow> nat \<Rightarrow> nat \<Rightarrow> nat \<Rightarrow> double \<Rightarrow> double" where
  "msd_inner ps n i j msd =
     (if j < n then msd_inner ps n i (j + 1) (fl_add msd (pair_term (ps ! i) (ps ! j))) else msd)"
  by pat_completeness auto
termination
  by (relation "measure (\<lambda>(ps, n, i, j, msd). n - j)") auto

declare msd_inner.simps [simp del]

function msd_outer :: "particle list \<Rightarrow> nat \<Rightarrow> nat \<Rightarrow> double \<Rightarrow> double" where
  "msd_outer ps n i msd =
     (if i < n then msd_outer ps n (i + 1) (msd_inner ps n i (i + 1) msd) else msd)"
  by pat_completeness auto
termination
  by (relation "measure (\<lambda>(ps, n, i, msd). n - i)") auto

declare msd_outer.simps [simp del]

text \<open>\<^verbatim>\<open>n_pairs = b->n*(b->n - 1)/2\<close> in \<^verbatim>\<open>unsigned long\<close> arithmetic: for an empty bank
  \<^verbatim>\<open>b->n - 1\<close> wraps around to \<open>2^64 - 1\<close>.\<close>

definition n_pairs :: "nat \<Rightarrow> nat" where
  "n_pairs n = unat (((word_of_nat n :: 64 word) * (word_of_nat n - 1)) div 2)"

text \<open>\<^verbatim>\<open>return msd/n_pairs\<close>: the pair count is converted to \<^verbatim>\<open>double\<close>, then the
  division is rounded.\<close>

definition mean_squared_distance :: "particle bank \<Rightarrow> double" where
  "mean_squared_distance b =
     fl_div (msd_outer (bank_p b) (bank_n b) 0 (Finite 0)) (round64 (real (n_pairs (bank_n b))))"

subsection \<open>\<^verbatim>\<open>shannon_entropy\<close> (eigenvalue.c, lines 224 to 266)\<close>

text \<open>The side lengths of the box; \<^verbatim>\<open>shannon_entropy\<close> reads no other field.\<close>

record geometry =
  Lx :: real
  Ly :: real
  Lz :: real

text \<open>What the C standard leaves undefined in this function: a write outside the
  array \<^verbatim>\<open>count\<close>, and the conversion to \<^verbatim>\<open>unsigned long\<close> of a \<^verbatim>\<open>double\<close> whose
  integral part is not an \<^verbatim>\<open>unsigned long\<close>.\<close>

datatype fault = Out_of_bounds | Unrepresentable

text \<open>Line 235, \<^verbatim>\<open>n = ceil(pow(b->n/20, 1.0/3.0))\<close>: the quotient \<^verbatim>\<open>b->n/20\<close> is a division
  of two integers.\<close>

definition entropy_mesh :: "nat \<Rightarrow> nat" where
  "entropy_mesh bn = nat \<lceil>root 3 (real (bn div 20))\<rceil>"

text \<open>The conversion of a \<^verbatim>\<open>double\<close> to \<^verbatim>\<open>unsigned long\<close> truncates towards zero.\<close>

definition to_ulong :: "double \<Rightarrow> fault + nat" where
  "to_ulong d =
     (case d of
        Finite v \<Rightarrow> if - 1 < v \<and> v < 2 ^ 64 then Inr (nat \<lfloor>v\<rfloor>) else Inl Unrepresentable
      | _ \<Rightarrow> Inl Unrepresentable)"

text \<open>Lines 238 to 240 and 249 to 253: the index into \<^verbatim>\<open>count\<close> of the particle's cell.\<close>

definition grid_index :: "nat \<Rightarrow> geometry \<Rightarrow> particle \<Rightarrow> fault + nat" where
  "grid_index n g p =
     (let dx = d_div (Finite (Lx g)) (Finite (real n));
          dy = d_div (Finite (Ly g)) (Finite (real n));
          dz = d_div (Finite (Lz g)) (Finite (real n))
      in case to_ulong (d_div (Finite (p_x p)) dx) of
           Inl e \<Rightarrow> Inl e
         | Inr ix \<Rightarrow>
             (case to_ulong (d_div (Finite (p_y p)) dy) of
                Inl e \<Rightarrow> Inl e
              | Inr iy \<Rightarrow>
                  (case to_ulong (d_div (Finite (p_z p)) dz) of
                     Inl e \<Rightarrow> Inl e
                   | Inr iz \<Rightarrow> Inr (ix * n * n + iy * n + iz))))"

text \<open>The counting loop, lines 245 to 254; \<open>cnt\<close> is the array \<^verbatim>\<open>count\<close>.\<close>

function count_loop ::
  "nat \<Rightarrow> geometry \<Rightarrow> particle list \<Rightarrow> nat \<Rightarrow> nat \<Rightarrow> nat list \<Rightarrow> fault + nat list" where
  "count_loop n g ps bn i cnt =
     (if i < bn then
        (case grid_index n g (ps ! i) of
           Inl e \<Rightarrow> Inl e
         | Inr c \<Rightarrow>
             if c < length cnt
             then count_loop n g ps bn (i + 1) (cnt[c := cnt ! c + 1])
             else Inl Out_of_bounds)
      else Inr cnt)"
  by pat_completeness auto
termination
  by (relation "measure (\<lambda>(n, g, ps, bn, i, cnt). bn - i)") auto

declare count_loop.simps [simp del]

text \<open>The summation loop, lines 257 to 261, over the \<open>m = n*n*n\<close> cells.\<close>

function entropy_loop :: "nat list \<Rightarrow> nat \<Rightarrow> nat \<Rightarrow> nat \<Rightarrow> real \<Rightarrow> real" where
  "entropy_loop cnt bn m i H =
     (if i < m then
        entropy_loop cnt bn m (i + 1)
          (if cnt ! i > 0
           then H - (real (cnt ! i) / real bn) * log 2 (real (cnt ! i) / real bn)
           else H)
      else H)"
  by pat_completeness auto
termination
  by (relation "measure (\<lambda>(cnt, bn, m, i, H). m - i)") auto

declare entropy_loop.simps [simp del]

definition shannon_entropy :: "geometry \<Rightarrow> particle bank \<Rightarrow> fault + real" where
  "shannon_entropy g b =
     (let n = entropy_mesh (bank_n b)
      in case count_loop n g (bank_p b) (bank_n b) 0 (replicate (n * n * n) 0) of
           Inl e \<Rightarrow> Inl e
         | Inr cnt \<Rightarrow> Inr (entropy_loop cnt (bank_n b) (n * n * n) 0 0))"

subsection \<open>\<^verbatim>\<open>run_eigenvalue\<close> (eigenvalue.c, lines 4 to 128)\<close>

text \<open>
  The driver is modelled as the sequential program (the build without OpenMP, where
  \<^verbatim>\<open>merge_fission_banks\<close> is not called): its banks, the generator state of the stream
  \<^verbatim>\<open>STREAM_OTHER\<close>, the index \<open>i_a\<close>, the array \<open>keff\<close>, the entropy \<open>H\<close>, the flag
  \<^verbatim>\<open>tally->tallies_on\<close> and the batch's \<open>keff_batch\<close>.

  The transport kernel is not part of the sources. By section 6 of the specification
  it receives the particle copied from the source bank, draws only from the stream
  positioned by \<^verbatim>\<open>rn_skip\<close>, reads the source bank and appends to the fission bank.
  It is a parameter that maps the skip offset, the source bank, the particle and the
  fission bank to the new fission bank. The tally, which the kernel scores into and
  line 103 clears, has no influence on the banks; of it the model keeps the flag
  \<^verbatim>\<open>tallies_on\<close>. The skip offset of line 49 is computed without wrap-around.

  The writers that the driver calls (\<^verbatim>\<open>write_bank\<close>, \<^verbatim>\<open>write_entropy\<close>, \<^verbatim>\<open>write_msd\<close>,
  \<^verbatim>\<open>write_source\<close>, \<^verbatim>\<open>write_tally\<close>, \<^verbatim>\<open>write_keff\<close>) take other arguments than the
  functions of these names in \<^verbatim>\<open>io.c\<close>, or are not there. Each call is recorded as an
  event with the values passed, and so is the status line that \<^verbatim>\<open>printf\<close> writes at the
  end of a batch: \<open>i_b + 1\<close>, \<open>H\<close>, \<open>keff_batch\<close> and, in the format of the active
  batches only, the mean and the standard deviation.
\<close>

record params =
  n_particles :: nat
  n_batches :: int
  n_generations :: int
  n_active :: int
  tally :: bool
  write_tally :: bool
  write_entropy :: bool
  write_msd :: bool
  write_bank :: bool
  write_source :: bool
  write_keff :: bool
  save_source_flag :: bool

type_synonym 'a transport = "nat \<Rightarrow> 'a bank \<Rightarrow> 'a \<Rightarrow> 'a bank \<Rightarrow> 'a bank"

datatype event =
    Write_bank "particle bank"
  | Write_entropy real
  | Write_msd double
  | Write_source "particle bank"
  | Write_tally
  | Status int real double "(double \<times> double) option"
  | Write_keff "double list" int
  | Save_source "particle bank"

text \<open>Two logs record, in program order, what the properties of the driver speak about:
  \<open>sync_log\<close> holds, for every call of \<^verbatim>\<open>synchronize_bank\<close>, the count \<open>fission_bank.n\<close>
  the call finds and the counts \<open>(fission_bank.n, source_bank.n)\<close> it leaves;
  \<open>keff_log\<close> holds the argument \<open>n\<close> of every call of \<^verbatim>\<open>calculate_keff\<close> with the mean
  and the standard deviation it stored.\<close>

record 'r run =
  sim :: "(particle, 'r) sim"
  i_a :: int
  keff :: "double list"
  run_H :: real
  tallies_on :: bool
  events :: "event list"
  sync_log :: "(nat \<times> nat \<times> nat) list"
  keff_log :: "(int \<times> double \<times> double) list"

text \<open>The loop over the particles, lines 44 to 56.\<close>

function particle_loop ::
  "'a transport \<Rightarrow> params \<Rightarrow> int \<Rightarrow> int \<Rightarrow> nat \<Rightarrow> ('a, 'r) sim \<Rightarrow> ('a, 'r) sim" where
  "particle_loop transport ps i_b i_g i_p st =
     (if i_p < n_particles ps then
        particle_loop transport ps i_b i_g (i_p + 1)
          (st\<lparr>fission_bank :=
                transport
                  (nat ((i_b * n_generations ps + i_g) * int (n_particles ps) + int i_p))
                  (source_bank st) (bank_p (source_bank st) ! i_p) (fission_bank st)\<rparr>)
      else st)"
  by pat_completeness auto
termination
  by (relation "measure (\<lambda>(transport, ps, i_b, i_g, i_p, st). n_particles ps - i_p)") auto

declare particle_loop.simps [simp del]

text \<open>The body of the loop over the generations, lines 39 to 89: the particle loop, the
  generation's \<open>k\<close>-effective, \<^verbatim>\<open>synchronize_bank\<close>, the call of \<^verbatim>\<open>shannon_entropy\<close> on the
  new source bank, and the three conditional outputs. The second component of the
  argument and of the result is \<open>keff_batch\<close>. When \<^verbatim>\<open>shannon_entropy\<close> leaves the
  behaviour of the program undefined, so does the generation: the result is the fault
  with the state reached.\<close>

definition generation ::
  "particle transport \<Rightarrow> 'r rni \<Rightarrow> params \<Rightarrow> geometry \<Rightarrow> int \<Rightarrow> int \<Rightarrow> 'r run \<times> double
     \<Rightarrow> (fault \<times> 'r run) + ('r run \<times> double)" where
  "generation transport rni ps g i_b i_g = (\<lambda>(s, keff_batch).
     (let st1 = particle_loop transport ps i_b i_g 0 (sim s);
          keff_gen = d_div (Finite (real (bank_n (fission_bank st1))))
                           (Finite (real (bank_n (source_bank st1))));
          st2 = synchronize_bank rni st1;
          s1 = s\<lparr>sim := st2,
                 sync_log := sync_log s @
                   [(bank_n (fission_bank st1), bank_n (fission_bank st2),
                     bank_n (source_bank st2))]\<rparr>
      in case shannon_entropy g (source_bank st2) of
           Inl e \<Rightarrow> Inl (e, s1)
         | Inr h \<Rightarrow>
             Inr (s1\<lparr>run_H := h,
                     events := events s1
                       @ (if write_entropy ps then [Write_entropy h] else [])
                       @ (if write_msd ps
                          then [Write_msd (mean_squared_distance (source_bank st2))] else [])
                       @ (if write_source ps then [Write_source (source_bank st2)] else [])\<rparr>,
                  d_add keff_batch keff_gen)))"

function generation_loop ::
  "particle transport \<Rightarrow> 'r rni \<Rightarrow> params \<Rightarrow> geometry \<Rightarrow> int \<Rightarrow> int \<Rightarrow> 'r run \<times> double
     \<Rightarrow> (fault \<times> 'r run) + ('r run \<times> double)" where
  "generation_loop transport rni ps g i_b i_g sk =
     (if i_g < n_generations ps then
        (case generation transport rni ps g i_b i_g sk of
           Inl f \<Rightarrow> Inl f
         | Inr sk' \<Rightarrow> generation_loop transport rni ps g i_b (i_g + 1) sk')
      else Inr sk)"
  by pat_completeness auto
termination
  by (relation "measure (\<lambda>(transport, rni, ps, g, i_b, i_g, sk). nat (n_generations ps - i_g))")
    auto

declare generation_loop.simps [simp del]

text \<open>The body of the loop over the batches, lines 21 to 115: the output of the bank,
  the start of an active batch, the generations, the batch's \<open>k\<close>-effective stored in
  \<^verbatim>\<open>keff[i_a]\<close> (a write outside the caller's array leaves the behaviour undefined), the
  output of the tally, \<^verbatim>\<open>calculate_keff\<close> and the status line.\<close>

definition batch ::
  "particle transport \<Rightarrow> 'r rni \<Rightarrow> params \<Rightarrow> geometry \<Rightarrow> int \<Rightarrow> 'r run
     \<Rightarrow> (fault \<times> 'r run) + 'r run" where
  "batch transport rni ps g i_b s =
     (let s0 = s\<lparr>events := events s
                   @ (if write_bank ps then [Write_bank (source_bank (sim s))] else [])\<rparr>;
          s1 = (if i_b \<ge> n_batches ps - n_active ps
                then s0\<lparr>i_a := i_a s0 + 1, tallies_on := (tally ps \<or> tallies_on s0)\<rparr>
                else s0)
      in case generation_loop transport rni ps g i_b 0 (s1, Finite 0) of
           Inl f \<Rightarrow> Inl f
         | Inr (s2, keff_batch) \<Rightarrow>
             (let keff_batch' = d_div keff_batch (Finite (of_int (n_generations ps)))
              in if 0 \<le> i_a s2 \<and> length (keff s2) \<le> nat (i_a s2)
                 then Inl (Out_of_bounds, s2)
                 else
                   (let s3 = (if 0 \<le> i_a s2
                              then s2\<lparr>keff := (keff s2)[nat (i_a s2) := keff_batch']\<rparr>
                              else s2);
                        s4 = s3\<lparr>events := events s3
                               @ (if tallies_on s3 \<and> write_tally ps then [Write_tally] else [])\<rparr>;
                        (keff_mean, keff_std) = calculate_keff (keff s4) (i_a s4 + 1)
                    in Inr (s4\<lparr>keff_log := keff_log s4 @ [(i_a s4 + 1, keff_mean, keff_std)],
                               events := events s4 @
                                 [Status (i_b + 1) (run_H s4) keff_batch'
                                    (if i_a s4 < 0 then None
                                     else Some (keff_mean, keff_std))]\<rparr>))))"

function batch_loop ::
  "particle transport \<Rightarrow> 'r rni \<Rightarrow> params \<Rightarrow> geometry \<Rightarrow> int \<Rightarrow> 'r run
     \<Rightarrow> (fault \<times> 'r run) + 'r run" where
  "batch_loop transport rni ps g i_b s =
     (if i_b < n_batches ps then
        (case batch transport rni ps g i_b s of
           Inl f \<Rightarrow> Inl f
         | Inr s' \<Rightarrow> batch_loop transport rni ps g (i_b + 1) s')
      else Inr s)"
  by pat_completeness auto
termination
  by (relation "measure (\<lambda>(transport, rni, ps, g, i_b, s). nat (n_batches ps - i_b))") auto

declare batch_loop.simps [simp del]

text \<open>\<^verbatim>\<open>print_error\<close> (io.c, lines 525 to 529) writes a line and ends the program with
  \<^verbatim>\<open>exit(1)\<close>: the line and the exit status.\<close>

definition print_error :: "string \<Rightarrow> string \<times> nat" where
  "print_error message = (''ERROR: '' @ message @ [CHR 0x0A], 1)"

text \<open>\<^verbatim>\<open>save_source\<close> (io.c, lines 709 to 721) writes the live particles of the bank to
  a file and ends the program when \<^verbatim>\<open>fwrite\<close> reports another number of items than
  \<open>b->n\<close>. The number that \<^verbatim>\<open>fwrite\<close> reports is a parameter; \<^verbatim>\<open>fopen\<close> is taken to
  succeed.\<close>

definition save_source :: "(particle bank \<Rightarrow> nat) \<Rightarrow> particle bank \<Rightarrow> (string \<times> nat) option" where
  "save_source fwrite b =
     (let stat = fwrite b
      in if stat \<noteq> bank_n b then Some (print_error ''Error saving source.'') else None)"

text \<open>How a run of the driver ends: with undefined behaviour, in \<^verbatim>\<open>exit\<close>, or by
  returning; in each case with the state reached.\<close>

datatype 'r outcome =
    Undefined fault "'r run"
  | Exit "string \<times> nat" "'r run"
  | Return "'r run"

text \<open>The state at the head of the loop over the batches, lines 6 to 16: \<open>st\<close> holds
  the source bank passed in, the fission bank and the generator state; \<open>t_on\<close> is the
  caller's \<^verbatim>\<open>tally->tallies_on\<close> and \<open>keff0\<close> the caller's array.\<close>

definition initial_run :: "(particle, 'r) sim \<Rightarrow> bool \<Rightarrow> double list \<Rightarrow> 'r run" where
  "initial_run st t_on keff0 =
     \<lparr>sim = st, i_a = - 1, keff = keff0, run_H = 0, tallies_on = t_on, events = [],
      sync_log = [], keff_log = []\<rparr>"

text \<open>The driver: the loop over the batches, then the output of \<open>keff\<close> and of the
  source bank, lines 118 to 125.\<close>

definition run_eigenvalue ::
  "particle transport \<Rightarrow> 'r rni \<Rightarrow> (particle bank \<Rightarrow> nat) \<Rightarrow> params \<Rightarrow> geometry
     \<Rightarrow> (particle, 'r) sim \<Rightarrow> bool \<Rightarrow> double list \<Rightarrow> 'r outcome" where
  "run_eigenvalue transport rni fwrite ps g st t_on keff0 =
     (case batch_loop transport rni ps g 0 (initial_run st t_on keff0) of
        Inl (e, s) \<Rightarrow> Undefined e s
      | Inr s \<Rightarrow>
          (let s1 = s\<lparr>events := events s
                        @ (if write_keff ps then [Write_keff (keff s) (n_active ps)] else [])\<rparr>
           in if save_source_flag ps
              then (case save_source fwrite (source_bank (sim s1)) of
                      Some err \<Rightarrow> Exit err s1
                    | None \<Rightarrow>
                        Return (s1\<lparr>events := events s1
                                     @ [Save_source (source_bank (sim s1))]\<rparr>))
              else Return s1))"

section \<open>Notions that state the properties\<close>

subsection \<open>The draws of a run\<close>

text \<open>\<open>draws rni r qs\<close> is the list of integers that successive calls
  \<^verbatim>\<open>rni(a, b)\<close>, one for each pair \<open>(a, b)\<close> of \<open>qs\<close> in order, return from
  generator state \<open>r\<close>, and the state they leave. The properties below use it to
  name the random integers a loop has drawn.\<close>

fun draws :: "'r rni \<Rightarrow> 'r \<Rightarrow> (nat \<times> nat) list \<Rightarrow> nat list \<times> 'r" where
  "draws rni r [] = ([], r)"
| "draws rni r ((a, b) # qs) =
     (case rni r a b of (j, r') \<Rightarrow>
        (case draws rni r' qs of (js, r'') \<Rightarrow> (j # js, r'')))"

text \<open>The overwrites of reservoir sampling, applied in order to the pairs \<open>(i, j)\<close> of a
  fission index and the integer drawn for it.\<close>

definition reservoir_updates :: "'a list \<Rightarrow> nat \<Rightarrow> 'a list \<Rightarrow> (nat \<times> nat) list \<Rightarrow> 'a list" where
  "reservoir_updates fp n_s sp ijs =
     foldl (\<lambda>sp (i, j). if j < n_s then sp[j := fp ! i] else sp) sp ijs"

text \<open>The contract of \<^verbatim>\<open>rni\<close> (section 6 of the specification): the integer drawn lies in
  the half-open range \<open>[a, b)\<close>.\<close>

definition rni_in_range :: "'r rni \<Rightarrow> bool" where
  "rni_in_range rni = (\<forall>r a b. a < b \<longrightarrow> a \<le> fst (rni r a b) \<and> fst (rni r a b) < b)"

subsection \<open>Pair sums and translations\<close>






text \<open>A \<^verbatim>\<open>double\<close> that is a non-negative number or \<open>+\<infinity>\<close>.\<close>

definition nonneg_double :: "double \<Rightarrow> bool" where
  "nonneg_double d = (case d of Finite v \<Rightarrow> 0 \<le> v | PosInf \<Rightarrow> True | _ \<Rightarrow> False)"

subsection \<open>Cells of the entropy mesh\<close>

text \<open>The mesh size of section 4.4 of the specification, \<open>m = \<lceil>(N/20)\<^sup>1\<^sup>/\<^sup>3\<rceil>\<close> with the
  quotient \<open>N/20\<close> a real number.\<close>

definition entropy_mesh_spec :: "nat \<Rightarrow> nat" where
  "entropy_mesh_spec bn = nat \<lceil>root 3 (real bn / 20)\<rceil>"

text \<open>The index of the cell \<open>(\<lfloor>x/dx\<rfloor>, \<lfloor>y/dy\<rfloor>, \<lfloor>z/dz\<rfloor>)\<close> of a particle in a mesh of
  \<open>m\<close> cells in each dimension, the number of live particles of a bank in a cell, and
  the positions inside the box.\<close>

definition cell :: "nat \<Rightarrow> geometry \<Rightarrow> particle \<Rightarrow> nat" where
  "cell m g p =
     nat \<lfloor>p_x p / (Lx g / real m)\<rfloor> * m * m + nat \<lfloor>p_y p / (Ly g / real m)\<rfloor> * m
       + nat \<lfloor>p_z p / (Lz g / real m)\<rfloor>"

definition cell_count :: "nat \<Rightarrow> geometry \<Rightarrow> particle bank \<Rightarrow> nat \<Rightarrow> nat" where
  "cell_count m g b c = length (filter (\<lambda>p. cell m g p = c) (take (bank_n b) (bank_p b)))"

definition in_box :: "geometry \<Rightarrow> particle \<Rightarrow> bool" where
  "in_box g p =
     (0 \<le> p_x p \<and> p_x p < Lx g \<and> 0 \<le> p_y p \<and> p_y p < Ly g \<and> 0 \<le> p_z p \<and> p_z p < Lz g)"

subsection \<open>Active batches\<close>

text \<open>The argument of \<^verbatim>\<open>calculate_keff\<close> at the end of batch \<open>i_b\<close>: the number of active
  batches among the batches \<open>0, ..., i_b\<close>.\<close>

definition active_batches :: "params \<Rightarrow> int \<Rightarrow> int" where
  "active_batches ps i_b =
     (if i_b < n_batches ps - n_active ps then 0
      else i_b + 1 - max 0 (n_batches ps - n_active ps))"

subsection \<open>Runs of the driver\<close>

text \<open>The state in which a run of the driver ends, and the two ways of ending that are
  not \<^verbatim>\<open>exit\<close>.\<close>

fun run_state :: "'r outcome \<Rightarrow> 'r run" where
  "run_state (Undefined e s) = s"
| "run_state (Exit err s) = s"
| "run_state (Return s) = s"

fun faulted :: "'r outcome \<Rightarrow> bool" where
  "faulted (Undefined e s) = True"
| "faulted (Exit err s) = False"
| "faulted (Return s) = False"

fun returned :: "'r outcome \<Rightarrow> bool" where
  "returned (Undefined e s) = False"
| "returned (Exit err s) = False"
| "returned (Return s) = True"

text \<open>The status lines among the events, in order: the batch number printed and, when
  the line has them, the mean and the standard deviation printed.\<close>

fun status_lines :: "event list \<Rightarrow> (int \<times> (double \<times> double) option) list" where
  "status_lines [] = []"
| "status_lines (Status n h kb ms # es) = (n, ms) # status_lines es"
| "status_lines (_ # es) = status_lines es"

text \<open>The status line that follows the call of \<^verbatim>\<open>calculate_keff\<close> at the end of batch
  \<open>i_b\<close>, for a call with argument \<open>n\<close> that stored the mean \<open>m\<close> and the standard
  deviation \<open>sd\<close>.\<close>

definition status_of_call :: "int \<times> int \<times> double \<times> double \<Rightarrow> int \<times> (double \<times> double) option" where
  "status_of_call = (\<lambda>(i_b, n, m, sd). (i_b + 1, if 1 \<le> n then Some (m, sd) else None))"

section \<open>Scenarios\<close>

text \<open>A generator that replays a script, for the scenarios of the specification
  (``RNG fixed so \<^verbatim>\<open>rni(0,3)=2\<close>, \<^verbatim>\<open>rni(0,4)=0\<close>'').\<close>

fun rni_script :: "nat list rni" where
  "rni_script [] a b = (a, [])"
| "rni_script (j # js) a b = (j, js)"

text \<open>A generator that keeps the contract of \<^verbatim>\<open>rni\<close>: it draws the lower bound.\<close>

fun rni_low :: "unit rni" where
  "rni_low r a b = (a, r)"

text \<open>Scenario S2: two source sites, fission bank \<open>[A, B, C, D]\<close>, draws 2 and 0.\<close>

definition reservoir_example :: "(char, nat list) sim" where
  "reservoir_example =
     \<lparr>source_bank = \<lparr>bank_n = 2, bank_p = ''XY''\<rparr>,
      fission_bank = \<lparr>bank_n = 4, bank_p = ''ABCD''\<rparr>,
      rng = [2, 0]\<rparr>"

text \<open>Scenario S3: four source sites, fission bank \<open>[A, B]\<close>, draws 0 and 1.\<close>

definition oversample_example :: "(char, nat list) sim" where
  "oversample_example =
     \<lparr>source_bank = \<lparr>bank_n = 4, bank_p = ''WXYZ''\<rparr>,
      fission_bank = \<lparr>bank_n = 2, bank_p = ''AB''\<rparr>,
      rng = [0, 1]\<rparr>"

text \<open>Three particles, the same three in another order, and banks of one and of no
  live particle.\<close>

definition msd_example :: "particle bank" where
  "msd_example =
     \<lparr>bank_n = 3,
      bank_p = [\<lparr>p_x = 0, p_y = 0, p_z = 0\<rparr>, \<lparr>p_x = 1, p_y = 0, p_z = 0\<rparr>,
                \<lparr>p_x = 0, p_y = 2, p_z = 0\<rparr>]\<rparr>"


definition msd_example_single :: "particle bank" where
  "msd_example_single = \<lparr>bank_n = 1, bank_p = [\<lparr>p_x = 1, p_y = 2, p_z = 3\<rparr>]\<rparr>"

definition msd_example_empty :: "particle bank" where
  "msd_example_empty = \<lparr>bank_n = 0, bank_p = [\<lparr>p_x = 1, p_y = 2, p_z = 3\<rparr>]\<rparr>"



text \<open>A transport kernel with one fission site for every source particle (scenario S1)
  and one with none (scenario S6).\<close>

definition transport_copy :: "'a transport" where
  "transport_copy off sb p fb = fb\<lparr>bank_n := bank_n fb + 1, bank_p := (bank_p fb)[bank_n fb := p]\<rparr>"



text \<open>Ten particles at the centre of the unit box.\<close>

definition entropy_example :: "particle bank" where
  "entropy_example =
     \<lparr>bank_n = 10, bank_p = replicate 10 \<lparr>p_x = 1 / 2, p_y = 1 / 2, p_z = 1 / 2\<rparr>\<rparr>"

definition unit_box :: geometry where
  "unit_box = \<lparr>Lx = 1, Ly = 1, Lz = 1\<rparr>"

text \<open>Scenario S4: twenty particles at the centre of the unit box.\<close>

definition entropy_example_20 :: "particle bank" where
  "entropy_example_20 =
     \<lparr>bank_n = 20, bank_p = replicate 20 \<lparr>p_x = 1 / 2, p_y = 1 / 2, p_z = 1 / 2\<rparr>\<rparr>"

text \<open>Twenty source particles at the centre of the unit box, an empty fission bank of
  capacity forty whose storage holds particles at the centre; no output is switched
  on. Three batches of two generations, the last two batches active; two batches of
  one generation, the last one active; one active batch of two generations.\<close>

definition driver_params :: params where
  "driver_params =
     \<lparr>n_particles = 20, n_batches = 3, n_generations = 2, n_active = 2, tally = False,
      write_tally = False, write_entropy = False, write_msd = False, write_bank = False,
      write_source = False, write_keff = False, save_source_flag = False\<rparr>"

definition inactive_params :: params where
  "inactive_params = driver_params\<lparr>n_batches := 2, n_generations := 1, n_active := 1\<rparr>"


definition driver_example :: "(particle, unit) sim" where
  "driver_example =
     \<lparr>source_bank = \<lparr>bank_n = 20, bank_p = replicate 20 \<lparr>p_x = 1 / 2, p_y = 1 / 2, p_z = 1 / 2\<rparr>\<rparr>,
      fission_bank = \<lparr>bank_n = 0, bank_p = replicate 40 \<lparr>p_x = 1 / 2, p_y = 1 / 2, p_z = 1 / 2\<rparr>\<rparr>,
      rng = ()\<rparr>"

text \<open>Three runs on these twenty particles in the unit box, with a generator that draws
  the lower bound and an \<^verbatim>\<open>fwrite\<close> that writes every item: one fission site for every source particle, for each of the first two
  sets of parameters, and no fission site at all.\<close>

definition driver_run :: "unit outcome" where
  "driver_run =
     run_eigenvalue transport_copy rni_low bank_n driver_params unit_box driver_example False
       [Finite 0, Finite 0]"

definition inactive_run :: "unit outcome" where
  "inactive_run =
     run_eigenvalue transport_copy rni_low bank_n inactive_params unit_box driver_example False
       [Finite 0]"


section \<open>Properties\<close>

subsection \<open>Bank synchronisation\<close>

lemma length_draws: "draws rni r qs = (js, r') \<Longrightarrow> length js = length qs"
  by (induction qs arbitrary: r js) (auto split: prod.splits)

lemma reservoir_loop_draws:
  "reservoir_loop rni fp n_s n_f i sp r =
     (case draws rni r (map (\<lambda>i. (0, i + 1)) [i..<n_f]) of
        (js, r') \<Rightarrow> (reservoir_updates fp n_s sp (zip [i..<n_f] js), r'))"
proof (induction rni fp n_s n_f i sp r rule: reservoir_loop.induct)
  case (1 rni fp n_s n_f i sp r)
  show ?case
  proof (cases "i < n_f")
    case False
    then show ?thesis by (subst reservoir_loop.simps) (simp add: reservoir_updates_def)
  next
    case True
    obtain j r1 where d: "rni r 0 (i + 1) = (j, r1)" by (cases "rni r 0 (i + 1)")
    have u: "[i..<n_f] = i # [i + 1..<n_f]" using True by (simp add: upt_conv_Cons)
    show ?thesis
      apply (subst reservoir_loop.simps)
      using True d "1.IH"[OF True d[symmetric] ] 
      apply (simp add: u reservoir_updates_def split: prod.splits)
      done
  qed
qed

lemma oversample_loop_draws:
  "i \<le> n_s - n_f \<Longrightarrow> n_s - n_f \<le> length sp \<Longrightarrow>
   oversample_loop rni fp n_s n_f i sp r =
     (case draws rni r (replicate (n_s - n_f - i) (0, n_f)) of
        (js, r') \<Rightarrow> (take i sp @ map (\<lambda>j. fp ! j) js @ drop (n_s - n_f) sp, r'))"
proof (induction rni fp n_s n_f i sp r rule: oversample_loop.induct)
  case (1 rni fp n_s n_f i sp r)
  show ?case
  proof (cases "i < n_s - n_f")
    case False
    with "1.prems" have "i = n_s - n_f" by simp
    then show ?thesis by (subst oversample_loop.simps) simp
  next
    case True
    obtain j r1 where d: "rni r 0 n_f = (j, r1)" by (cases "rni r 0 n_f")
    define m where "m = n_s - n_f - (i + 1)"
    have rep: "replicate (n_s - n_f - i) (0::nat, n_f) = (0, n_f) # replicate m (0, n_f)"
      using True unfolding m_def by (cases "n_s - n_f - i") auto
    have il: "i < length sp" using True "1.prems" by simp
    have tk: "take (i + 1) (sp[i := fp ! j]) = take i sp @ [fp ! j]"
      using il by (simp add: take_Suc_conv_app_nth)
    have dr: "drop (n_s - n_f) (sp[i := fp ! j]) = drop (n_s - n_f) sp"
      using True by simp
    have IH: "oversample_loop rni fp n_s n_f (i + 1) (sp[i := fp ! j]) r1 =
      (case draws rni r1 (replicate m (0, n_f)) of
        (js, r') \<Rightarrow> (take (i + 1) (sp[i := fp ! j]) @ map (\<lambda>j. fp ! j) js @ drop (n_s - n_f) (sp[i := fp ! j]), r'))"
      using "1.IH"[OF True d[symmetric] ] True "1.prems" unfolding m_def by simp
    obtain js r2 where d2: "draws rni r1 (replicate m (0, n_f)) = (js, r2)"
      by (cases "draws rni r1 (replicate m (0, n_f))")
    have "oversample_loop rni fp n_s n_f i sp r =
          oversample_loop rni fp n_s n_f (i + 1) (sp[i := fp ! j]) r1"
      by (subst oversample_loop.simps) (simp add: True d)
    also have "\<dots> = (take i sp @ [fp ! j] @ map (\<lambda>j. fp ! j) js @ drop (n_s - n_f) sp, r2)"
      unfolding IH d2 tk dr by simp
    also have "\<dots> = (case draws rni r (replicate (n_s - n_f - i) (0, n_f)) of
        (js, r') \<Rightarrow> (take i sp @ map (\<lambda>j. fp ! j) js @ drop (n_s - n_f) sp, r'))"
      unfolding rep by (simp add: d d2)
    finally show ?thesis .
  qed
qed

lemma synchronize_bank_counts:
  "bank_n (source_bank (synchronize_bank rni st)) = bank_n (source_bank st) \<and>
   bank_n (fission_bank (synchronize_bank rni st)) = 0"
  by (simp add: synchronize_bank_def Let_def split: prod.splits)

text \<open>
  Claim C1. When the fission bank holds at least as many particles as the source bank
  (\<open>n_s \<le> n_f\<close>), the new source array is the old one with \<open>fission_bank[0..n_s)\<close>
  copied over its first \<open>n_s\<close> entries and then, for \<open>i = n_s, ..., n_f - 1\<close> in
  increasing order and \<open>j\<close> the integer drawn by \<^verbatim>\<open>rni(0, i+1)\<close>, entry \<open>j\<close> overwritten
  with \<open>fission_bank[i]\<close> exactly when \<open>j < n_s\<close>. The generator is left in the state
  after these draws. When \<open>n_f = n_s\<close> the live part of the new source bank is the
  live part of the fission bank.
\<close>

theorem synchronize_bank_reservoir:
  assumes ns: "n_s = bank_n (source_bank st)" and nf: "n_f = bank_n (fission_bank st)"
    and sp: "sp = bank_p (source_bank st)" and fp: "fp = bank_p (fission_bank st)"
    and ge: "n_s \<le> n_f"
    and wf: "n_s \<le> length sp" "n_f \<le> length fp"
    and dr: "draws rni (rng st) (map (\<lambda>i. (0, i + 1)) [n_s..<n_f]) = (js, r')"
  shows "bank_p (source_bank (synchronize_bank rni st)) =
           reservoir_updates fp n_s (take n_s fp @ drop n_s sp) (zip [n_s..<n_f] js)
       \<and> rng (synchronize_bank rni st) = r'
       \<and> (n_f = n_s \<longrightarrow>
            take n_s (bank_p (source_bank (synchronize_bank rni st))) = take n_f fp)"
proof -
  have 1: "bank_p (source_bank (synchronize_bank rni st)) =
           reservoir_updates fp n_s (take n_s fp @ drop n_s sp) (zip [n_s..<n_f] js)"
    and 2: "rng (synchronize_bank rni st) = r'"
    using ge dr
    by (simp_all add: synchronize_bank_def Let_def ns[symmetric] nf[symmetric] sp[symmetric]
        fp[symmetric] reservoir_loop_draws memcpy_at_def split: prod.splits)
  have 3: "take n_s (bank_p (source_bank (synchronize_bank rni st))) = take n_f fp" if "n_f = n_s"
    using that wf unfolding 1 by (simp add: reservoir_updates_def)
  show ?thesis using 1 2 3 by simp
qed

theorem synchronize_bank_reservoir_witness:
  "bank_n (source_bank reservoir_example) \<le> bank_n (fission_bank reservoir_example)
   \<and> draws rni_script (rng reservoir_example) [(0, 3), (0, 4)] = ([2, 0], [])
   \<and> bank_p (source_bank (synchronize_bank rni_script reservoir_example)) = ''DB''
   \<and> rng (synchronize_bank rni_script reservoir_example) = []"
proof -
  have d: "draws rni_script (rng reservoir_example) (map (\<lambda>i. (0, i + 1)) [2..<4]) = ([2, 0], [])"
    by (simp add: reservoir_example_def)
  have "bank_p (source_bank (synchronize_bank rni_script reservoir_example)) =
           reservoir_updates ''ABCD'' 2 (take 2 ''ABCD'' @ drop 2 ''XY'') (zip [2..<4] [2, 0])
       \<and> rng (synchronize_bank rni_script reservoir_example) = []
       \<and> ((4::nat) = 2 \<longrightarrow>
            take 2 (bank_p (source_bank (synchronize_bank rni_script reservoir_example))) = take 4 ''ABCD'')"
    by (rule synchronize_bank_reservoir[where n_s = 2 and n_f = 4 and sp = "''XY''", OF _ _ _ _ _ _ _ d])
       (simp_all add: reservoir_example_def)
  then show ?thesis
    by (simp add: reservoir_example_def reservoir_updates_def)
qed

lemma synchronize_bank_oversample_array:
  assumes ns: "n_s = bank_n (source_bank st)" and nf: "n_f = bank_n (fission_bank st)"
    and sp: "sp = bank_p (source_bank st)" and fp: "fp = bank_p (fission_bank st)"
    and lt: "n_f < n_s"
    and wf: "n_s \<le> length sp"
    and dr: "draws rni (rng st) (replicate (n_s - n_f) (0, n_f)) = (js, r')"
  shows "bank_p (source_bank (synchronize_bank rni st)) =
           map (\<lambda>j. fp ! j) js @ take n_f fp @ drop (n_s - n_f + n_f) (map (\<lambda>j. fp ! j) js @ drop (n_s - n_f) sp)"
    and "rng (synchronize_bank rni st) = r'"
proof -
  have l: "length js = n_s - n_f" using length_draws[OF dr] by simp
  have o: "oversample_loop rni fp n_s n_f 0 sp (rng st) = (map (\<lambda>j. fp ! j) js @ drop (n_s - n_f) sp, r')"
    using oversample_loop_draws[of 0 n_s n_f sp rni fp "rng st"] wf dr by simp
  show "bank_p (source_bank (synchronize_bank rni st)) =
           map (\<lambda>j. fp ! j) js @ take n_f fp @ drop (n_s - n_f + n_f) (map (\<lambda>j. fp ! j) js @ drop (n_s - n_f) sp)"
    using lt l
    by (simp add: synchronize_bank_def Let_def ns[symmetric] nf[symmetric] sp[symmetric]
        fp[symmetric] o memcpy_at_def)
  show "rng (synchronize_bank rni st) = r'"
    using lt
    by (simp add: synchronize_bank_def Let_def ns[symmetric] nf[symmetric] sp[symmetric]
        fp[symmetric] o)
qed

text \<open>
  Claim C2. When \<open>0 < n_f < n_s\<close>, entry \<open>k\<close> of the new source bank, for
  \<open>k = 0, ..., n_s - n_f - 1\<close>, is \<open>fission_bank[j\<^sub>k]\<close> where \<open>j\<^sub>k\<close> is the
  \<open>k\<close>-th of \<open>n_s - n_f\<close> successive draws \<^verbatim>\<open>rni(0, n_f)\<close>, and the last \<open>n_f\<close>
  entries are the fission bank in order.
\<close>

theorem synchronize_bank_oversample:
  assumes ns: "n_s = bank_n (source_bank st)" and nf: "n_f = bank_n (fission_bank st)"
    and sp: "sp = bank_p (source_bank st)" and fp: "fp = bank_p (fission_bank st)"
    and pos: "0 < n_f" and lt: "n_f < n_s"
    and wf: "n_s \<le> length sp" "n_f \<le> length fp"
    and dr: "draws rni (rng st) (replicate (n_s - n_f) (0, n_f)) = (js, r')"
  shows "length js = n_s - n_f
       \<and> (\<forall>k < n_s - n_f. bank_p (source_bank (synchronize_bank rni st)) ! k = fp ! (js ! k))
       \<and> (\<forall>k < n_f. bank_p (source_bank (synchronize_bank rni st)) ! (n_s - n_f + k) = fp ! k)
       \<and> rng (synchronize_bank rni st) = r'"
proof -
  have l: "length js = n_s - n_f" using length_draws[OF dr] by simp
  note a = synchronize_bank_oversample_array[OF ns nf sp fp lt wf(1) dr]
  have 1: "bank_p (source_bank (synchronize_bank rni st)) ! k = fp ! (js ! k)" if "k < n_s - n_f" for k
    unfolding a(1) using that l by (simp add: nth_append)
  have 2: "bank_p (source_bank (synchronize_bank rni st)) ! (n_s - n_f + k) = fp ! k" if "k < n_f" for k
    unfolding a(1) using that l wf(2) by (simp add: nth_append)
  show ?thesis using l 1 2 a(2) by blast
qed

theorem synchronize_bank_oversample_witness:
  "0 < bank_n (fission_bank oversample_example)
   \<and> bank_n (fission_bank oversample_example) < bank_n (source_bank oversample_example)
   \<and> draws rni_script (rng oversample_example) [(0, 2), (0, 2)] = ([0, 1], [])
   \<and> bank_p (source_bank (synchronize_bank rni_script oversample_example)) ! 0 = CHR ''A''
   \<and> bank_p (source_bank (synchronize_bank rni_script oversample_example)) ! 1 = CHR ''B''
   \<and> bank_p (source_bank (synchronize_bank rni_script oversample_example)) ! 2 = CHR ''A''
   \<and> bank_p (source_bank (synchronize_bank rni_script oversample_example)) ! 3 = CHR ''B''"
proof -
  have d: "draws rni_script (rng oversample_example) (replicate (4 - 2) (0, 2)) = ([0, 1], [])"
    by (simp add: oversample_example_def numeral_2_eq_2)
  have t: "length [0::nat, 1] = 4 - 2
       \<and> (\<forall>k < 4 - 2. bank_p (source_bank (synchronize_bank rni_script oversample_example)) ! k = ''AB'' ! ([0, 1] ! k))
       \<and> (\<forall>k < 2. bank_p (source_bank (synchronize_bank rni_script oversample_example)) ! (4 - 2 + k) = ''AB'' ! k)
       \<and> rng (synchronize_bank rni_script oversample_example) = []"
    by (rule synchronize_bank_oversample[where n_s = 4 and n_f = 2 and sp = "''WXYZ''", OF _ _ _ _ _ _ _ _ d])
       (simp_all add: oversample_example_def)
  from t have a: "\<forall>k < (2::nat). bank_p (source_bank (synchronize_bank rni_script oversample_example)) ! k = ''AB'' ! ([0, 1] ! k)"
    by simp
  from t have b: "\<forall>k < (2::nat). bank_p (source_bank (synchronize_bank rni_script oversample_example)) ! (2 + k) = ''AB'' ! k"
    by simp
  have a0: "bank_p (source_bank (synchronize_bank rni_script oversample_example)) ! 0 = ''AB'' ! ([0, 1] ! 0)"
    using a by (rule allE[where x = 0]) simp
  have a1: "bank_p (source_bank (synchronize_bank rni_script oversample_example)) ! 1 = ''AB'' ! ([0, 1] ! 1)"
    using a by (rule allE[where x = 1]) simp
  have b0: "bank_p (source_bank (synchronize_bank rni_script oversample_example)) ! (2 + 0) = ''AB'' ! 0"
    using b by (rule allE[where x = 0]) simp
  have b1: "bank_p (source_bank (synchronize_bank rni_script oversample_example)) ! (2 + 1) = ''AB'' ! 1"
    using b by (rule allE[where x = 1]) simp
  have d': "draws rni_script (rng oversample_example) [(0, 2), (0, 2)] = ([0, 1], [])"
    using d by (simp add: numeral_2_eq_2)
  have c: "0 < bank_n (fission_bank oversample_example)
   \<and> bank_n (fission_bank oversample_example) < bank_n (source_bank oversample_example)"
    by (simp add: oversample_example_def)
  show ?thesis using a0 a1 b0 b1 d' c by simp
qed

lemma draws_replicate_in_range:
  assumes "rni_in_range rni" "a < b" "draws rni r (replicate k (a, b)) = (js, r')"
  shows "\<forall>j \<in> set js. a \<le> j \<and> j < b"
  using assms(3)
proof (induction k arbitrary: r js r')
  case 0
  then show ?case by simp
next
  case (Suc k)
  obtain j r1 where d: "rni r a b = (j, r1)" by (cases "rni r a b")
  obtain js1 r2 where d1: "draws rni r1 (replicate k (a, b)) = (js1, r2)"
    by (cases "draws rni r1 (replicate k (a, b))")
  have js: "js = j # js1" using Suc.prems d d1 by simp
  have "a \<le> j \<and> j < b" using assms(1,2) d unfolding rni_in_range_def by (metis fst_conv)
  then show ?case using Suc.IH[OF d1] js by simp
qed

lemma reservoir_updates_live:
  assumes "\<forall>(i, j) \<in> set ijs. i < n_f" "n_f \<le> length fp" "n_s \<le> length sp"
    and "set (take n_s sp) \<subseteq> set (take n_f fp)"
  shows "set (take n_s (reservoir_updates fp n_s sp ijs)) \<subseteq> set (take n_f fp)"
  using assms
proof (induction ijs arbitrary: sp)
  case Nil
  then show ?case by (simp add: reservoir_updates_def)
next
  case (Cons ij ijs)
  obtain i j where ij: "ij = (i, j)" by (cases ij)
  define sp1 where "sp1 = (if j < n_s then sp[j := fp ! i] else sp)"
  have i: "i < n_f" using Cons.prems(1) ij by simp
  have fi: "fp ! i \<in> set (take n_f fp)"
    using i Cons.prems(2) by (metis in_set_conv_nth length_take min.absorb2 nth_take)
  have "set (take n_s sp1) \<subseteq> set (take n_f fp)"
  proof (cases "j < n_s")
    case False
    then show ?thesis using Cons.prems(4) by (simp add: sp1_def)
  next
    case True
    have "take n_s (sp[j := fp ! i]) = (take n_s sp)[j := fp ! i]"
      using True by (simp add: take_update_swap)
    then have "set (take n_s sp1) \<subseteq> insert (fp ! i) (set (take n_s sp))"
      using True by (simp add: sp1_def set_update_subset_insert)
    then show ?thesis using fi Cons.prems(4) by auto
  qed
  moreover have "length sp1 = length sp" by (simp add: sp1_def)
  moreover have "reservoir_updates fp n_s sp (ij # ijs) = reservoir_updates fp n_s sp1 ijs"
    by (simp add: reservoir_updates_def ij sp1_def)
  ultimately show ?case using Cons.IH[of sp1] Cons.prems by simp
qed

text \<open>
  Every particle of the new source bank is a live particle of the fission bank, when the
  fission bank is not empty and \<^verbatim>\<open>rni\<close> keeps its contract (section 4.2 of the
  specification: each particle of the new source bank is drawn from the fission bank).
\<close>

theorem synchronize_bank_from_fission:
  assumes ns: "n_s = bank_n (source_bank st)" and nf: "n_f = bank_n (fission_bank st)"
    and sp: "sp = bank_p (source_bank st)" and fp: "fp = bank_p (fission_bank st)"
    and pos: "0 < n_f" and wf: "n_s \<le> length sp" "n_f \<le> length fp"
    and rni: "rni_in_range rni"
  shows "set (take n_s (bank_p (source_bank (synchronize_bank rni st)))) \<subseteq> set (take n_f fp)"
proof (cases "n_s \<le> n_f")
  case True
  obtain js r' where dr: "draws rni (rng st) (map (\<lambda>i. (0, i + 1)) [n_s..<n_f]) = (js, r')"
    by (cases "draws rni (rng st) (map (\<lambda>i. (0, i + 1)) [n_s..<n_f])")
  have e: "bank_p (source_bank (synchronize_bank rni st)) =
           reservoir_updates fp n_s (take n_s fp @ drop n_s sp) (zip [n_s..<n_f] js)"
    using True dr
    by (simp add: synchronize_bank_def Let_def ns[symmetric] nf[symmetric] sp[symmetric]
        fp[symmetric] reservoir_loop_draws memcpy_at_def)
  have 1: "\<forall>(i, j) \<in> set (zip [n_s..<n_f] js). i < n_f"
    by (auto dest: set_zip_leftD)
  have 2: "set (take n_s (take n_s fp @ drop n_s sp)) \<subseteq> set (take n_f fp)"
    using set_take_subset_set_take[OF True, of fp] wf True by simp
  show ?thesis
    unfolding e
    by (rule reservoir_updates_live[OF 1 wf(2) _ 2]) (use wf True in simp)
next
  case False
  then have lt: "n_f < n_s" by simp
  obtain js r' where dr: "draws rni (rng st) (replicate (n_s - n_f) (0, n_f)) = (js, r')"
    by (cases "draws rni (rng st) (replicate (n_s - n_f) (0, n_f))")
  have l: "length js = n_s - n_f" using length_draws[OF dr] by simp
  note a = synchronize_bank_oversample_array[OF ns nf sp fp lt wf(1) dr]
  have r: "\<forall>j \<in> set js. 0 \<le> j \<and> j < n_f"
    by (rule draws_replicate_in_range[OF rni pos dr])
  have t: "take n_s (bank_p (source_bank (synchronize_bank rni st))) =
           map (\<lambda>j. fp ! j) js @ take n_f fp"
    unfolding a(1) using l lt wf by simp
  have "fp ! j \<in> set (take n_f fp)" if "j \<in> set js" for j
    using r that wf(2) by (metis in_set_conv_nth length_take min.absorb2 nth_take)
  then show ?thesis unfolding t by auto
qed

theorem synchronize_bank_from_fission_witness:
  "rni_in_range rni_low
   \<and> set (take 4 (bank_p (source_bank (synchronize_bank rni_low
        \<lparr>source_bank = \<lparr>bank_n = 4, bank_p = ''WXYZ''\<rparr>,
         fission_bank = \<lparr>bank_n = 2, bank_p = ''AB''\<rparr>, rng = ()\<rparr>)))) \<subseteq> set (take 2 ''AB'')"
proof -
  have r: "rni_in_range rni_low" by (simp add: rni_in_range_def)
  show ?thesis
    using r synchronize_bank_from_fission[where rni = rni_low and n_s = 4 and n_f = 2
        and sp = "''WXYZ''" and fp = "''AB''"
        and st = "\<lparr>source_bank = \<lparr>bank_n = 4, bank_p = ''WXYZ''\<rparr>,
         fission_bank = \<lparr>bank_n = 2, bank_p = ''AB''\<rparr>, rng = ()\<rparr>", OF _ _ _ _ _ _ _ r]
    by simp
qed

subsection \<open>The \<open>k\<close>-effective statistics\<close>

lemma keff_sum_loop_finite:
  "0 \<le> i \<Longrightarrow> nat n \<le> length ks \<Longrightarrow>
   keff_sum_loop (map Finite ks) n i (Finite a) = Finite (a + (\<Sum>k = nat i..<nat n. ks ! k))"
proof (induction "map Finite ks" n i "Finite a" arbitrary: a rule: keff_sum_loop.induct)
  case (1 n i)
  show ?case
  proof (cases "i < n")
    case False
    then show ?thesis by (subst keff_sum_loop.simps) simp
  next
    case True
    have lt: "nat i < nat n" using True "1.prems" by simp
    have il: "nat i < length ks" using True "1.prems" by linarith
    have nth: "map Finite ks ! nat i = Finite (ks ! nat i)" using il by (rule nth_map)
    have suc: "nat (i + 1) = Suc (nat i)" using "1.prems" by simp
    have "keff_sum_loop (map Finite ks) n i (Finite a) =
          keff_sum_loop (map Finite ks) n (i + 1) (Finite (a + ks ! nat i))"
      by (subst keff_sum_loop.simps) (simp add: True nth)
    also have "\<dots> = Finite ((a + ks ! nat i) + (\<Sum>k = nat (i + 1)..<nat n. ks ! k))"
      using "1.hyps"[OF True, of "a + ks ! nat i"] "1.prems" by (simp add: nth)
    also have "\<dots> = Finite (a + (\<Sum>k = nat i..<nat n. ks ! k))"
      using lt by (simp add: suc sum.atLeast_Suc_lessThan)
    finally show ?thesis .
  qed
qed

lemma keff_sq_loop_finite:
  "0 \<le> i \<Longrightarrow> nat n \<le> length ks \<Longrightarrow>
   keff_sq_loop (map Finite ks) (Finite m) n i (Finite a) =
     Finite (a + (\<Sum>k = nat i..<nat n. (ks ! k - m)\<^sup>2))"
proof (induction "map Finite ks" "Finite m" n i "Finite a" arbitrary: a rule: keff_sq_loop.induct)
  case (1 n i)
  show ?case
  proof (cases "i < n")
    case False
    then show ?thesis by (subst keff_sq_loop.simps) simp
  next
    case True
    have lt: "nat i < nat n" using True "1.prems" by simp
    have il: "nat i < length ks" using True "1.prems" by linarith
    have nth: "map Finite ks ! nat i = Finite (ks ! nat i)" using il by (rule nth_map)
    have suc: "nat (i + 1) = Suc (nat i)" using "1.prems" by simp
    have "keff_sq_loop (map Finite ks) (Finite m) n i (Finite a) =
          keff_sq_loop (map Finite ks) (Finite m) n (i + 1) (Finite (a + (ks ! nat i - m)\<^sup>2))"
      by (subst keff_sq_loop.simps) (simp add: True nth d_sub_def)
    also have "\<dots> = Finite ((a + (ks ! nat i - m)\<^sup>2) + (\<Sum>k = nat (i + 1)..<nat n. (ks ! k - m)\<^sup>2))"
      using "1.hyps"[OF True, of "a + (ks ! nat i - m)\<^sup>2"] "1.prems" by (simp add: nth d_sub_def)
    also have "\<dots> = Finite (a + (\<Sum>k = nat i..<nat n. (ks ! k - m)\<^sup>2))"
      using lt by (simp add: suc sum.atLeast_Suc_lessThan)
    finally show ?thesis .
  qed
qed

text \<open>
  Claim C8. For \<open>n \<ge> 1\<close> and finite estimates \<open>keff[0..n)\<close>, \<^verbatim>\<open>calculate_keff\<close> sets the
  mean to \<open>(1/n) \<Sum>\<^sub>i\<^sub><\<^sub>n keff[i]\<close>; for \<open>n \<ge> 2\<close> it sets the standard deviation
  to \<open>sqrt ((1/(n-1)) \<Sum>\<^sub>i\<^sub><\<^sub>n (keff[i] - mean)\<^sup>2)\<close>; for \<open>n = 1\<close> the mean is
  \<open>keff[0]\<close> and the standard deviation is \<open>sqrt (0/0)\<close>, which is NaN.
\<close>

theorem calculate_keff_statistics:
  assumes n1: "1 \<le> n" and len: "nat n \<le> length ks"
    and mean: "mean = (\<Sum>i < nat n. ks ! i) / of_int n"
  shows "fst (calculate_keff (map Finite ks) n) = Finite mean
       \<and> (2 \<le> n \<longrightarrow> snd (calculate_keff (map Finite ks) n) =
             Finite (sqrt ((\<Sum>i < nat n. (ks ! i - mean)\<^sup>2) / of_int (n - 1))))
       \<and> (n = 1 \<longrightarrow> mean = ks ! 0 \<and> snd (calculate_keff (map Finite ks) n) = NaN)"
proof -
  have s: "keff_sum_loop (map Finite ks) n 0 (Finite 0) = Finite (\<Sum>i < nat n. ks ! i)"
    using keff_sum_loop_finite[of 0 n ks 0] len by (simp add: atLeast0LessThan)
  have m: "d_div (keff_sum_loop (map Finite ks) n 0 (Finite 0)) (Finite (of_int n)) = Finite mean"
    using n1 by (simp add: s mean)
  have q: "keff_sq_loop (map Finite ks) (Finite mean) n 0 (Finite 0) =
           Finite (\<Sum>i < nat n. (ks ! i - mean)\<^sup>2)"
    using keff_sq_loop_finite[of 0 n ks mean 0] len by (simp add: atLeast0LessThan)
  have 1: "fst (calculate_keff (map Finite ks) n) = Finite mean"
    by (simp add: calculate_keff_def Let_def m)
  have sd: "snd (calculate_keff (map Finite ks) n) =
      d_sqrt (d_div (Finite (\<Sum>i < nat n. (ks ! i - mean)\<^sup>2)) (Finite (of_int (n - 1))))"
    by (simp add: calculate_keff_def Let_def m q)
  have nonneg: "0 \<le> (\<Sum>i < nat n. (ks ! i - mean)\<^sup>2)"
    by (rule sum_nonneg) simp
  have 2: "snd (calculate_keff (map Finite ks) n) =
             Finite (sqrt ((\<Sum>i < nat n. (ks ! i - mean)\<^sup>2) / of_int (n - 1)))" if "2 \<le> n"
  proof -
    have "0 < (of_int (n - 1) :: real)" using that by simp
    then have "\<not> (\<Sum>i < nat n. (ks ! i - mean)\<^sup>2) / of_int (n - 1) < 0"
      using nonneg by (simp add: not_less)
    then show ?thesis using that unfolding sd by simp
  qed
  have 3: "mean = ks ! 0 \<and> snd (calculate_keff (map Finite ks) n) = NaN" if "n = 1"
  proof -
    have mk: "mean = ks ! 0" using that by (simp add: mean)
    have "(\<Sum>i < nat n. (ks ! i - mean)\<^sup>2) = 0" using that by (simp add: mk)
    then show ?thesis using that mk unfolding sd by simp
  qed
  show ?thesis using 1 2 3 by blast
qed

theorem calculate_keff_statistics_witness:
  "calculate_keff (map Finite [1, 102 / 100, 99 / 100]) 3 = (Finite (301 / 300), Finite (sqrt (7 / 30000)))
   \<and> calculate_keff (map Finite [5 / 4]) 1 = (Finite (5 / 4), NaN)"
proof -
  have s3: "(\<Sum>i < nat 3. [1, 102 / 100, 99 / 100 :: real] ! i) / of_int 3 = 301 / 300"
    by (simp add: eval_nat_numeral lessThan_Suc)
  have q3: "(\<Sum>i < nat 3. ([1, 102 / 100, 99 / 100 :: real] ! i - 301 / 300)\<^sup>2) / of_int (3 - 1) = 7 / 30000"
    by (simp add: eval_nat_numeral lessThan_Suc field_simps)
  have a: "fst (calculate_keff (map Finite [1, 102 / 100, 99 / 100]) 3) = Finite (301 / 300)
       \<and> snd (calculate_keff (map Finite [1, 102 / 100, 99 / 100]) 3) = Finite (sqrt (7 / 30000))"
    using calculate_keff_statistics[of 3 "[1, 102 / 100, 99 / 100]" "301 / 300"] s3 q3 by simp
  have b: "fst (calculate_keff (map Finite [5 / 4]) 1) = Finite (5 / 4)
       \<and> snd (calculate_keff (map Finite [5 / 4]) 1) = NaN"
    using calculate_keff_statistics[of 1 "[5 / 4]" "5 / 4"] by simp
  show ?thesis using a b by (simp add: prod_eq_iff)
qed

text \<open>
  The call of an inactive batch, \<open>n = 0\<close>: the mean is \<open>0/0\<close>, which is NaN, and the
  standard deviation is \<open>sqrt (0/(-1))\<close>, which is zero. No element of \<open>keff\<close> is read.
\<close>

theorem calculate_keff_no_estimate:
  "calculate_keff keff0 0 = (NaN, Finite 0)"
proof -
  have 1: "keff_sum_loop keff0 0 0 (Finite 0) = Finite 0"
    by (subst keff_sum_loop.simps) simp
  have 2: "keff_sq_loop keff0 NaN 0 0 (Finite 0) = Finite 0"
    by (subst keff_sq_loop.simps) simp
  show ?thesis by (simp add: calculate_keff_def 1 2)
qed

subsection \<open>Rounding\<close>


lemma round_even_nonneg: "0 \<le> x \<Longrightarrow> 0 \<le> round_even x"
  by (simp add: round_even_def Let_def)

lemma round_even_pos: "1 \<le> x \<Longrightarrow> 1 \<le> round_even x"
  by (auto simp add: round_even_def Let_def)

lemma round_even_le: "of_int (round_even x) \<le> x + 1"
  unfolding round_even_def Let_def by (auto; linarith)



lemma round64_0: "round64 0 = Finite 0"
  by (simp add: round64_def)


lemma round64_nonneg:
  assumes "0 \<le> x"
  shows "round64 x = PosInf \<or> (\<exists>y\<ge>0. round64 x = Finite y)"
proof (cases "x = 0")
  case True
  then show ?thesis by (simp add: round64_def)
next
  case False
  define q :: real where "q = 2 powr of_int (max \<lfloor>log 2 \<bar>x\<bar>\<rfloor> (- 1022) - 52)"
  have q0: "0 < q" unfolding q_def by simp
  have "0 \<le> x / q" using assms q0 by simp
  then have "0 \<le> round_even (x / q)" by (rule round_even_nonneg)
  then have "0 \<le> of_int (round_even (x / q)) * q" using q0 by simp
  then show ?thesis
    using False assms unfolding round64_def Let_def q_def[symmetric] by auto
qed

lemma round64_count:
  assumes "1 \<le> x" "x < 2 ^ 64"
  shows "\<exists>y > 0. round64 x = Finite y"
proof -
  define e where "e = \<lfloor>log 2 \<bar>x\<bar>\<rfloor>"
  have x0: "0 < x" "\<bar>x\<bar> = x" using assms(1) by simp_all
  have e0: "0 \<le> e" unfolding e_def using assms(1) by simp
  have "x < 2 powr 64" using assms(2) by simp
  then have "log 2 x < 64" using x0 by (subst log_less_iff) simp_all
  then have e63: "e \<le> 63" unfolding e_def x0 by (simp add: floor_le_iff)
  define q :: real where "q = 2 powr of_int (e - 52)"
  have q0: "0 < q" unfolding q_def by simp
  have "q \<le> 2 powr 11" unfolding q_def using e63 by (intro powr_mono) simp_all
  then have q11: "q \<le> 2 ^ 11" by simp
  have ex: "2 powr of_int e \<le> x"
    using floor_log_eq_powr_iff[where b = 2 and x = x and k = e] x0 unfolding e_def x0 by simp
  have "q * 2 powr 52 = 2 powr (of_int (e - 52) + 52)" unfolding q_def by (rule powr_add[symmetric])
  also have "\<dots> = 2 powr of_int e" by simp
  finally have "q * 2 ^ 52 \<le> x" using ex by simp
  then have "1 \<le> x / q" using q0 by (simp add: field_simps) 
  then have r1: "1 \<le> round_even (x / q)" by (rule round_even_pos)
  define y where "y = of_int (round_even (x / q)) * q"
  have y0: "0 < y" unfolding y_def using r1 q0 by simp
  have "y \<le> (x / q + 1) * q" unfolding y_def using round_even_le[of "x / q"] q0
    by (intro mult_right_mono) simp_all
  also have "\<dots> = x + q" using q0 by (simp add: field_simps)
  also have "\<dots> < 2 ^ 64 + 2 ^ 11" using assms(2) q11 by linarith
  also have "\<dots> < (2::real) ^ 65" by simp
  also have "\<dots> < 2 ^ 1024" by (rule power_strict_increasing) simp_all
  finally have "\<bar>y\<bar> < 2 ^ 1024" using y0 by simp
  moreover have m: "max e (- 1022) = e" using e0 by simp
  ultimately have "round64 x = Finite y"
    using x0 unfolding round64_def Let_def e_def[symmetric] m q_def[symmetric] y_def[symmetric]
    by simp
  then show ?thesis using y0 by blast
qed

subsection \<open>Mean-squared distance\<close>









lemma n_pairs_small:
  assumes "n < 2 ^ 32"
  shows "n_pairs n = n * (n - 1) div 2"
proof (cases n)
  case 0
  then show ?thesis by (simp add: n_pairs_def)
next
  case (Suc m)
  have b: "n * (n - 1) < 2 ^ 64"
  proof -
    have "n * (n - 1) \<le> n * n" by simp
    also have "\<dots> < 2 ^ 32 * 2 ^ 32" using assms by (intro mult_strict_mono) simp_all
    finally show ?thesis by simp
  qed
  have "(word_of_nat n :: 64 word) - 1 = word_of_nat (n - 1)" using Suc by simp
  then have "(word_of_nat n :: 64 word) * (word_of_nat n - 1) = word_of_nat (n * (n - 1))"
    by simp
  moreover have "unat (word_of_nat (n * (n - 1)) :: 64 word) = n * (n - 1)"
    unfolding unat_of_nat using b by simp
  ultimately show ?thesis unfolding n_pairs_def unat_div by simp
qed
























lemma nonneg_rounded: "nonneg_double d \<Longrightarrow> nonneg_double (rounded d)"
  using round64_nonneg by (fastforce simp: nonneg_double_def rounded_def split: double.splits)

lemma nonneg_fl_add: "nonneg_double a \<Longrightarrow> nonneg_double b \<Longrightarrow> nonneg_double (fl_add a b)"
  unfolding fl_add_def by (rule nonneg_rounded) (auto simp: nonneg_double_def split: double.splits)

lemma nonneg_fl_square: "nonneg_double (fl_mul (fl_sub (Finite a) (Finite b)) (fl_sub (Finite a) (Finite b)))"
proof -
  have "nonneg_double (d_mul d d)" if "d \<noteq> NaN" for d
    using that by (cases d) (simp_all add: nonneg_double_def)
  moreover have "fl_sub (Finite a) (Finite b) \<noteq> NaN"
    unfolding fl_sub_def d_sub_def rounded_def by (simp add: round64_def Let_def)
  ultimately show ?thesis unfolding fl_mul_def by (intro nonneg_rounded) simp
qed

lemma nonneg_pair_term: "nonneg_double (pair_term p q)"
  unfolding pair_term_def Let_def by (intro nonneg_fl_add nonneg_fl_square)

lemma nonneg_msd_inner: "nonneg_double a \<Longrightarrow> nonneg_double (msd_inner ps n i j a)"
proof (induction ps n i j a rule: msd_inner.induct)
  case (1 ps n i j a)
  show ?case
    by (subst msd_inner.simps) (use 1 in \<open>simp add: nonneg_fl_add nonneg_pair_term\<close>)
qed

lemma nonneg_msd_outer: "nonneg_double a \<Longrightarrow> nonneg_double (msd_outer ps n i a)"
proof (induction ps n i a rule: msd_outer.induct)
  case (1 ps n i a)
  show ?case
    by (subst msd_outer.simps) (use 1 in \<open>simp add: nonneg_msd_inner\<close>)
qed

lemma msd_outer_small: "n \<le> 1 \<Longrightarrow> msd_outer ps n 0 a = a"
proof -
  assume "n \<le> 1"
  then have "n = 0 \<or> n = 1" by auto
  then show ?thesis
  proof
    assume "n = 0" then show ?thesis by (subst msd_outer.simps) simp 
  next
    assume n: "n = 1"
    have "msd_outer ps 1 0 a = msd_outer ps 1 1 (msd_inner ps 1 0 1 a)"
      by (subst msd_outer.simps) simp
    also have "\<dots> = msd_inner ps 1 0 1 a" by (subst msd_outer.simps) simp
    also have "\<dots> = a" by (subst msd_inner.simps) simp
    finally show ?thesis unfolding n .
  qed
qed




text \<open>
  Claim C10. For a bank of one particle or of none the pair count \<^verbatim>\<open>n*(n-1)/2\<close> is zero
  and the division \<^verbatim>\<open>msd/n_pairs\<close> is \<open>0/0\<close>: the function returns NaN, not a mean. For
  \<open>2 \<le> n < 2^32\<close> the pair count is positive and the function returns a non-negative
  number or \<open>+\<infinity>\<close>.
\<close>

theorem mean_squared_distance_undefined:
  "(bank_n b \<le> 1 \<longrightarrow> n_pairs (bank_n b) = 0 \<and> mean_squared_distance b = NaN)
   \<and> (2 \<le> bank_n b \<and> bank_n b < 2 ^ 32 \<longrightarrow>
        0 < n_pairs (bank_n b) \<and> nonneg_double (mean_squared_distance b))"
proof -
  have 1: "n_pairs (bank_n b) = 0 \<and> mean_squared_distance b = NaN" if "bank_n b \<le> 1"
  proof -
    have n: "bank_n b = 0 \<or> bank_n b = 1" using that by auto
    have np: "n_pairs (bank_n b) = 0" using n by (auto simp: n_pairs_small)
    show ?thesis
      using np msd_outer_small[OF that]
      by (simp add: mean_squared_distance_def round64_0 fl_div_def rounded_def)
  qed
  have 2: "0 < n_pairs (bank_n b) \<and> nonneg_double (mean_squared_distance b)"
    if "2 \<le> bank_n b \<and> bank_n b < 2 ^ 32"
  proof -
    have "2 \<le> bank_n b" "1 \<le> bank_n b - 1" using that by linarith+
    then have "2 * 1 \<le> bank_n b * (bank_n b - 1)"
      by (rule mult_le_mono)
    then have "1 \<le> bank_n b * (bank_n b - 1) div 2" by simp
    then have np: "0 < n_pairs (bank_n b)" using that by (simp add: n_pairs_small)
    have "n_pairs (bank_n b) < 2 ^ 64"
      unfolding n_pairs_def by (rule order_less_le_trans[OF unsigned_less]) simp
    then have "real (n_pairs (bank_n b)) < real (2 ^ 64)" by (rule of_nat_less_iff[THEN iffD2])
    then have "real (n_pairs (bank_n b)) < 2 ^ 64" by simp
    moreover have "1 \<le> real (n_pairs (bank_n b))" using np by simp
    ultimately obtain y where y: "0 < y" "round64 (real (n_pairs (bank_n b))) = Finite y"
      using round64_count by blast
    define S where "S = msd_outer (bank_p b) (bank_n b) 0 (Finite 0)"
    have "nonneg_double S" unfolding S_def
      by (rule nonneg_msd_outer) (simp add: nonneg_double_def)
    then have "nonneg_double (d_div S (Finite y))"
      using y(1) by (cases S) (simp_all add: nonneg_double_def)
    then have "nonneg_double (mean_squared_distance b)"
      unfolding mean_squared_distance_def S_def[symmetric] y(2) fl_div_def
      by (rule nonneg_rounded)
    then show ?thesis using np by simp
  qed
  show ?thesis using 1 2 by blast
qed

theorem mean_squared_distance_undefined_witness:
  "bank_n msd_example_single \<le> 1 \<and> mean_squared_distance msd_example_single = NaN
   \<and> bank_n msd_example_empty \<le> 1 \<and> mean_squared_distance msd_example_empty = NaN
   \<and> 2 \<le> bank_n msd_example \<and> 0 < n_pairs (bank_n msd_example)
   \<and> nonneg_double (mean_squared_distance msd_example)"
  using mean_squared_distance_undefined[of msd_example_single]
    mean_squared_distance_undefined[of msd_example_empty]
    mean_squared_distance_undefined[of msd_example]
  by (simp add: msd_example_single_def msd_example_empty_def msd_example_def)


subsection \<open>Shannon entropy\<close>

lemma root3_half: "\<lceil>root 3 (1 / 2 :: real)\<rceil> = 1"
proof (rule ceiling_unique)
  show "of_int 1 - 1 < root 3 (1 / 2 :: real)" by simp
  have "root 3 (1 / 2 :: real) \<le> root 3 1" by (subst real_root_le_iff) simp_all
  then show "root 3 (1 / 2 :: real) \<le> of_int 1" by simp
qed

lemma root3_three_halves: "\<lceil>root 3 (3 / 2 :: real)\<rceil> = 2"
proof (rule ceiling_unique)
  have "root 3 1 < root 3 (3 / 2 :: real)" by (subst real_root_less_iff) simp_all
  then show "of_int 2 - 1 < root 3 (3 / 2 :: real)" by simp
  have "root 3 (2 ^ 3) = (2 :: real)" by (rule real_root_power_cancel) simp_all
  moreover have "root 3 (3 / 2 :: real) \<le> root 3 (2 ^ 3)" by (subst real_root_le_iff) simp_all
  ultimately show "root 3 (3 / 2 :: real) \<le> of_int 2" by simp
qed

text \<open>
  Claim C7 says that the mesh has \<open>m = \<lceil>(n/20)\<^sup>1\<^sup>/\<^sup>3\<rceil>\<close> cells in each dimension, with the
  real quotient \<open>n/20\<close>. The code divides the integers first. For a bank of ten
  particles it takes \<open>m = 0\<close> where the claim has \<open>m = 1\<close>: the array \<^verbatim>\<open>count\<close> has no
  element and the first particle's increment \<^verbatim>\<open>count[0]++\<close> writes outside it. For thirty
  particles it takes \<open>m = 1\<close> where the claim has \<open>m = 2\<close>.
\<close>

theorem shannon_entropy_mesh_divergence:
  "entropy_mesh 10 = 0 \<and> entropy_mesh_spec 10 = 1
   \<and> shannon_entropy unit_box entropy_example = Inl Out_of_bounds
   \<and> entropy_mesh 30 = 1 \<and> entropy_mesh_spec 30 = 2"
proof -
  have m10: "entropy_mesh 10 = 0" by (simp add: entropy_mesh_def)
  have s10: "entropy_mesh_spec 10 = 1" using root3_half by (simp add: entropy_mesh_spec_def)
  have m30: "entropy_mesh 30 = 1" by (simp add: entropy_mesh_def)
  have s30: "entropy_mesh_spec 30 = 2" using root3_three_halves by (simp add: entropy_mesh_spec_def)
  have g: "grid_index 0 unit_box \<lparr>p_x = 1 / 2, p_y = 1 / 2, p_z = 1 / 2\<rparr> = Inr 0"
    by (simp add: grid_index_def unit_box_def to_ulong_def)
  have c: "count_loop 0 unit_box (bank_p entropy_example) 10 0 [] = Inl Out_of_bounds"
    by (subst count_loop.simps) (simp add: entropy_example_def g)
  have "shannon_entropy unit_box entropy_example = Inl Out_of_bounds"
    using c by (simp add: shannon_entropy_def m10 entropy_example_def)
  then show ?thesis using m10 s10 m30 s30 by simp
qed

lemma entropy_mesh_bounds:
  assumes "20 \<le> bn"
  shows "1 \<le> entropy_mesh bn \<and> entropy_mesh bn \<le> bn"
proof -
  define q where "q = bn div 20"
  have q1: "1 \<le> q" using assms unfolding q_def by (simp add: Suc_le_eq div_greater_zero_iff)
  have qb: "q \<le> bn" unfolding q_def by simp
  have "root 3 1 \<le> root 3 (real q)" using q1 by (subst real_root_le_iff) simp_all
  then have r1: "1 \<le> root 3 (real q)" by simp
  have "real q \<le> real q ^ 3" using q1 by (simp add: self_le_power)
  then have "root 3 (real q) \<le> root 3 (real q ^ 3)" by (subst real_root_le_iff) simp_all
  also have "\<dots> = real q" by (rule real_root_power_cancel) simp_all
  finally have r2: "root 3 (real q) \<le> real q" .
  have c1: "1 \<le> \<lceil>root 3 (real q)\<rceil>" using r1 by (simp add: le_ceiling_iff)
  have c2: "\<lceil>root 3 (real q)\<rceil> \<le> int q" using r2 by (simp add: ceiling_le_iff)
  show ?thesis using c1 c2 qb unfolding entropy_mesh_def q_def[symmetric] by linarith
qed

lemma coordinate_index:
  assumes "0 \<le> x" "x < L" "1 \<le> m" "m < 2 ^ 64"
  shows "to_ulong (d_div (Finite x) (d_div (Finite L) (Finite (real m)))) =
           Inr (nat \<lfloor>x / (L / real m)\<rfloor>)"
    and "nat \<lfloor>x / (L / real m)\<rfloor> < m"
proof -
  have L: "0 < L" using assms by simp
  have m: "0 < real m" using assms by simp
  have d: "0 < L / real m" using L m by simp
  have lo: "0 \<le> x / (L / real m)" using assms d by simp
  have "x * real m < L * real m" using assms(2) m by simp
  then have "x * real m / L < real m" using L by (simp add: pos_divide_less_eq mult.commute)
  then have hi: "x / (L / real m) < real m" by simp
  have "real m < 2 ^ 64" using assms(4) by (metis of_nat_less_numeral_power_cancel_iff)
  then have hi64: "x / (L / real m) < 2 ^ 64" using hi by linarith
  show "to_ulong (d_div (Finite x) (d_div (Finite L) (Finite (real m)))) =
           Inr (nat \<lfloor>x / (L / real m)\<rfloor>)"
    using L d m lo hi64 by (simp add: to_ulong_def)
  have "\<lfloor>x / (L / real m)\<rfloor> < int m" using hi by (simp add: floor_less_iff)
  then show "nat \<lfloor>x / (L / real m)\<rfloor> < m" using lo by linarith
qed

lemma flat_index_bound:
  fixes ix iy iz m :: nat
  assumes "ix < m" "iy < m" "iz < m"
  shows "ix * m * m + iy * m + iz < m * m * m"
proof -
  have "iy * m + iz < iy * m + m" using assms by simp
  also have "\<dots> = (iy + 1) * m" by simp
  also have "\<dots> \<le> m * m" using assms by (intro mult_le_mono1) simp
  finally have a: "iy * m + iz < m * m" .
  have "ix * m * m + iy * m + iz = ix * (m * m) + (iy * m + iz)" by (simp add: algebra_simps)
  also have "\<dots> < ix * (m * m) + m * m" using a by simp
  also have "\<dots> = (ix + 1) * (m * m)" by simp
  also have "\<dots> \<le> m * (m * m)" using assms by (intro mult_le_mono1) simp
  finally show ?thesis by (simp add: algebra_simps)
qed

lemma grid_index_cell:
  assumes "in_box g p" "1 \<le> m" "m < 2 ^ 64"
  shows "grid_index m g p = Inr (cell m g p)" and "cell m g p < m * m * m"
proof -
  note x = coordinate_index[of "p_x p" "Lx g" m] and y = coordinate_index[of "p_y p" "Ly g" m]
    and z = coordinate_index[of "p_z p" "Lz g" m]
  have b: "0 \<le> p_x p" "p_x p < Lx g" "0 \<le> p_y p" "p_y p < Ly g" "0 \<le> p_z p" "p_z p < Lz g"
    using assms(1) by (simp_all add: in_box_def)
  show "grid_index m g p = Inr (cell m g p)"
    using x(1)[OF b(1,2) assms(2,3)] y(1)[OF b(3,4) assms(2,3)] z(1)[OF b(5,6) assms(2,3)]
    by (simp add: grid_index_def cell_def Let_def)
  show "cell m g p < m * m * m"
    unfolding cell_def
    using x(2)[OF b(1,2) assms(2,3)] y(2)[OF b(3,4) assms(2,3)] z(2)[OF b(5,6) assms(2,3)]
    by (rule flat_index_bound)
qed

lemma count_loop_cells:
  assumes "bn \<le> length ps" "1 \<le> m" "m < 2 ^ 64" "length cnt = m * m * m"
    and "list_all (in_box g) (take bn ps)"
  shows "count_loop m g ps bn i cnt =
           Inr (map (\<lambda>c. cnt ! c + length (filter (\<lambda>p. cell m g p = c) (drop i (take bn ps))))
                  [0..<m * m * m])"
  using assms
proof (induction m g ps bn i cnt rule: count_loop.induct)
  case (1 m g ps bn i cnt)
  show ?case
  proof (cases "i < bn")
    case False
    have "map (\<lambda>c. cnt ! c) [0..<m * m * m] = cnt"
      using "1.prems"(4) by (metis map_nth)
    then show ?thesis using False by (subst count_loop.simps) simp
  next
    case True
    have il: "i < length (take bn ps)" using True "1.prems"(1) by simp
    have nth: "take bn ps ! i = ps ! i" using True by simp
    have box: "in_box g (ps ! i)"
      using "1.prems"(5) il nth by (metis list_all_length)
    note gi = grid_index_cell[OF box "1.prems"(2,3)]
    define c0 where "c0 = cell m g (ps ! i)"
    have c0: "c0 < length cnt" using gi(2) "1.prems"(4) by (simp add: c0_def)
    have IH: "count_loop m g ps bn (i + 1) (cnt[c0 := cnt ! c0 + 1]) =
        Inr (map (\<lambda>c. cnt[c0 := cnt ! c0 + 1] ! c
               + length (filter (\<lambda>p. cell m g p = c) (drop (i + 1) (take bn ps))))
             [0..<m * m * m])"
      using "1.IH"[OF True gi(1)[folded c0_def] c0] "1.prems" by simp
    have dr: "drop i (take bn ps) = ps ! i # drop (i + 1) (take bn ps)"
      using il nth by (metis Cons_nth_drop_Suc Suc_eq_plus1)
    have "count_loop m g ps bn i cnt = count_loop m g ps bn (i + 1) (cnt[c0 := cnt ! c0 + 1])"
      using True gi(1) c0 by (subst count_loop.simps) (simp add: c0_def)
    also have "\<dots> = Inr (map (\<lambda>c. cnt ! c + length (filter (\<lambda>p. cell m g p = c) (drop i (take bn ps))))
                  [0..<m * m * m])"
      unfolding IH dr using "1.prems"(4)
      by (auto simp: nth_list_update c0_def)
    finally show ?thesis .
  qed
qed

lemma entropy_loop_sum:
  "entropy_loop cnt bn M i H =
     H - (\<Sum>k = i..<M. if 0 < cnt ! k
                        then real (cnt ! k) / real bn * log 2 (real (cnt ! k) / real bn)
                        else 0)"
proof (induction cnt bn M i H rule: entropy_loop.induct)
  case (1 cnt bn M i H)
  show ?case
  proof (cases "i < M")
    case False
    then show ?thesis by (subst entropy_loop.simps) simp
  next
    case True
    show ?thesis
      by (subst entropy_loop.simps)
         (use True "1.IH"[OF True] in \<open>simp add: sum.atLeast_Suc_lessThan\<close>)
  qed
qed

text \<open>
  What the code computes where it is defined: for a bank of \<open>20 \<le> n < 2^64\<close> particles
  inside the box, with \<open>m = \<lceil>(n div 20)\<^sup>1\<^sup>/\<^sup>3\<rceil> \<ge> 1\<close>, no write leaves the array and the
  result is \<open>H = - \<Sum>\<^sub>c (count\<^sub>c/n) log\<^sub>2 (count\<^sub>c/n)\<close> over the cells \<open>c\<close> of the
  \<open>m \<times> m \<times> m\<close> mesh with \<open>count\<^sub>c > 0\<close>.
\<close>

theorem shannon_entropy_value:
  assumes n20: "20 \<le> bank_n b" and wf: "bank_n b \<le> length (bank_p b)"
    and ul: "bank_n b < 2 ^ 64"
    and box: "list_all (in_box g) (take (bank_n b) (bank_p b))"
    and m: "m = entropy_mesh (bank_n b)"
  shows "1 \<le> m
       \<and> shannon_entropy g b =
           Inr (- (\<Sum>c < m * m * m.
                    if 0 < cell_count m g b c
                    then real (cell_count m g b c) / real (bank_n b)
                           * log 2 (real (cell_count m g b c) / real (bank_n b))
                    else 0))"
proof -
  note mb = entropy_mesh_bounds[OF n20, folded m]
  have m1: "1 \<le> m" and m64: "m < 2 ^ 64" using mb ul by simp_all
  have c: "count_loop m g (bank_p b) (bank_n b) 0 (replicate (m * m * m) 0) =
           Inr (map (cell_count m g b) [0..<m * m * m])"
    using count_loop_cells[OF wf m1 m64 _ box, of "replicate (m * m * m) 0" 0]
    by (simp add: cell_count_def cong: map_cong)
  have "shannon_entropy g b =
        Inr (entropy_loop (map (cell_count m g b) [0..<m * m * m]) (bank_n b) (m * m * m) 0 0)"
    by (simp add: shannon_entropy_def m[symmetric] c)
  also have "entropy_loop (map (cell_count m g b) [0..<m * m * m]) (bank_n b) (m * m * m) 0 0 =
     - (\<Sum>c < m * m * m.
                    if 0 < cell_count m g b c
                    then real (cell_count m g b c) / real (bank_n b)
                           * log 2 (real (cell_count m g b c) / real (bank_n b))
                    else 0)"
    unfolding entropy_loop_sum atLeast0LessThan
    by (simp, rule sum.cong) simp_all
  finally show ?thesis using m1 by simp
qed

lemma entropy_mesh_20: "entropy_mesh 20 = 1"
  by (simp add: entropy_mesh_def)

theorem shannon_entropy_value_witness:
  "entropy_mesh (bank_n entropy_example_20) = 1
   \<and> shannon_entropy unit_box entropy_example_20 = Inr 0"
proof -
  have m: "1 = entropy_mesh (bank_n entropy_example_20)"
    by (simp add: entropy_example_20_def entropy_mesh_20)
  have c: "cell (Suc 0) unit_box \<lparr>p_x = 1 / 2, p_y = 1 / 2, p_z = 1 / 2\<rparr> = 0"
    by (simp add: cell_def unit_box_def)
  have cc: "cell_count 1 unit_box entropy_example_20 0 = 20"
    by (simp add: cell_count_def entropy_example_20_def c filter_replicate)
  have h: "20 \<le> bank_n entropy_example_20"
    "bank_n entropy_example_20 \<le> length (bank_p entropy_example_20)"
    "bank_n entropy_example_20 < 2 ^ 64"
    "list_all (in_box unit_box) (take (bank_n entropy_example_20) (bank_p entropy_example_20))"
    by (simp_all add: entropy_example_20_def in_box_def unit_box_def list_all_length)
  have n: "bank_n entropy_example_20 = 20" by (simp add: entropy_example_20_def)
  note t = shannon_entropy_value[OF h m, THEN conjunct2]
  have one: "(\<Sum>c < 1 * 1 * 1. F c) = F 0" for F :: "nat \<Rightarrow> real"
    by simp
  have "shannon_entropy unit_box entropy_example_20 = Inr 0"
    unfolding t one cc n by simp
  then show ?thesis using m by simp
qed

text \<open>The lower bound of property P5 of the specification: \<open>0 \<le> H\<close>.\<close>

theorem shannon_entropy_nonneg:
  assumes n20: "20 \<le> bank_n b" and wf: "bank_n b \<le> length (bank_p b)"
    and ul: "bank_n b < 2 ^ 64"
    and box: "list_all (in_box g) (take (bank_n b) (bank_p b))"
  shows "\<exists>H. shannon_entropy g b = Inr H \<and> 0 \<le> H"
proof -
  define m where "m = entropy_mesh (bank_n b)"
  define n where "n = bank_n b"
  have n0: "0 < n" using n20 by (simp add: n_def)
  have le: "cell_count m g b c \<le> n" for c
    unfolding cell_count_def n_def
    by (rule order_trans[OF length_filter_le]) simp
  have t: "(if 0 < cell_count m g b c
            then real (cell_count m g b c) / real n * log 2 (real (cell_count m g b c) / real n)
            else 0) \<le> 0" for c
  proof (cases "0 < cell_count m g b c")
    case False
    then show ?thesis by simp
  next
    case True
    define q where "q = real (cell_count m g b c) / real n"
    have q0: "0 < q" using True n0 by (simp add: q_def)
    have q1: "q \<le> 1" using le[of c] n0 by (simp add: q_def)
    have "log 2 q \<le> 0" using q0 q1 by simp
    then have "q * log 2 q \<le> 0" using q0 by (simp add: mult_le_0_iff)
    then show ?thesis using True by (simp add: q_def)
  qed
  have "(\<Sum>c < m * m * m.
           if 0 < cell_count m g b c
           then real (cell_count m g b c) / real n * log 2 (real (cell_count m g b c) / real n)
           else 0) \<le> 0"
    by (rule sum_nonpos) (rule t)
  then show ?thesis
    using shannon_entropy_value[OF n20 wf ul box m_def] unfolding n_def by simp
qed

theorem shannon_entropy_nonneg_witness:
  "20 \<le> bank_n entropy_example_20 \<and>
   (\<exists>H. shannon_entropy unit_box entropy_example_20 = Inr H \<and> 0 \<le> H)"
proof -
  have h: "20 \<le> bank_n entropy_example_20"
    "bank_n entropy_example_20 \<le> length (bank_p entropy_example_20)"
    "bank_n entropy_example_20 < 2 ^ 64"
    "list_all (in_box unit_box) (take (bank_n entropy_example_20) (bank_p entropy_example_20))"
    by (simp_all add: entropy_example_20_def in_box_def unit_box_def list_all_length)
  show ?thesis using shannon_entropy_nonneg[OF h] h(1) by simp
qed


subsection \<open>The driver\<close>

text \<open>The status lines of a list of events; the particle loop changes the fission bank
  only.\<close>

lemma status_lines_append: "status_lines (xs @ ys) = status_lines xs @ status_lines ys"
  by (induction xs rule: status_lines.induct) simp_all

lemma particle_loop_frame:
  "source_bank (particle_loop transport ps i_b i_g i_p st) = source_bank st \<and>
   rng (particle_loop transport ps i_b i_g i_p st) = rng st"
proof (induction transport ps i_b i_g i_p st rule: particle_loop.induct)
  case (1 transport ps i_b i_g i_p st)
  show ?case
  proof (cases "i_p < n_particles ps")
    case False
    then show ?thesis by (subst (1 2) particle_loop.simps) simp
  next
    case True
    show ?thesis
      by (subst (1 2) particle_loop.simps) (use True "1.IH"[OF True] in simp)
  qed
qed


text \<open>What a generation does to the state, whether it returns or not.\<close>

lemma generation_effect:
  assumes "generation transport rni ps g i_b i_g (s, kb) = Inl (e, s')
         \<or> generation transport rni ps g i_b i_g (s, kb) = Inr (s', kb')"
  shows "sync_log s' = sync_log s @
           [(bank_n (fission_bank (particle_loop transport ps i_b i_g 0 (sim s))), 0,
             bank_n (source_bank (sim s)))]"
    and "bank_n (source_bank (sim s')) = bank_n (source_bank (sim s))"
    and "bank_n (fission_bank (sim s')) = 0"
    and "i_a s' = i_a s" and "keff s' = keff s" and "keff_log s' = keff_log s"
    and "tallies_on s' = tallies_on s"
    and "status_lines (events s') = status_lines (events s)"
  using assms
  by (auto simp: generation_def Let_def synchronize_bank_counts particle_loop_frame
      status_lines_append split: sum.splits)

lemma generation_loop_effect:
  assumes "generation_loop transport rni ps g i_b i_g (s, kb) = Inl (e, s')
         \<or> generation_loop transport rni ps g i_b i_g (s, kb) = Inr (s', kb')"
  shows "(\<exists>k. map snd (sync_log s') =
               map snd (sync_log s) @ replicate k (0, bank_n (source_bank (sim s)))
           \<and> k \<le> nat (n_generations ps - i_g)
           \<and> (i_g < n_generations ps \<longrightarrow> 1 \<le> k)
           \<and> (generation_loop transport rni ps g i_b i_g (s, kb) = Inr (s', kb')
                \<longrightarrow> k = nat (n_generations ps - i_g)))
    \<and> bank_n (source_bank (sim s')) = bank_n (source_bank (sim s))
    \<and> i_a s' = i_a s \<and> keff s' = keff s \<and> keff_log s' = keff_log s
    \<and> tallies_on s' = tallies_on s
    \<and> status_lines (events s') = status_lines (events s)"
  using assms
proof (induction transport rni ps g i_b i_g "(s, kb)" arbitrary: s kb
    rule: generation_loop.induct)
  case (1 transport rni ps g i_b i_g)
  show ?case
  proof (cases "i_g < n_generations ps")
    case False
    then have "generation_loop transport rni ps g i_b i_g (s, kb) = Inr (s, kb)"
      by (subst generation_loop.simps) simp
    then have "s' = s" using "1.prems" by simp
    then show ?thesis using False by simp
  next
    case True
    show ?thesis
    proof (cases "generation transport rni ps g i_b i_g (s, kb)")
      case (Inl f)
      then have l: "generation_loop transport rni ps g i_b i_g (s, kb) = Inl f"
        using True by (subst generation_loop.simps) simp
      then have f: "f = (e, s')" using "1.prems" by simp
      note ge = generation_effect[of transport rni ps g i_b i_g s kb e s' kb, OF disjI1,
          OF Inl[unfolded f] ]
      have "map snd (sync_log s') =
              map snd (sync_log s) @ replicate 1 (0, bank_n (source_bank (sim s)))"
        using ge(1) by simp
      moreover have "(1::nat) \<le> nat (n_generations ps - i_g)" using True by simp
      ultimately show ?thesis using ge l by (intro conjI exI[where x = 1]) simp_all
    next
      case (Inr sk)
      obtain s1 kb1 where sk: "sk = (s1, kb1)" by (cases sk)
      have l: "generation_loop transport rni ps g i_b i_g (s, kb) =
               generation_loop transport rni ps g i_b (i_g + 1) (s1, kb1)"
        using True Inr sk by (subst generation_loop.simps) simp
      note ge = generation_effect[of transport rni ps g i_b i_g s kb e s1 kb1, OF disjI2,
          OF Inr[unfolded sk] ]
      note IH = "1.hyps"[OF True Inr[unfolded sk] "1.prems"[unfolded l] ]
      obtain k where k: "map snd (sync_log s') =
               map snd (sync_log s1) @ replicate k (0, bank_n (source_bank (sim s1)))"
           "k \<le> nat (n_generations ps - (i_g + 1))"
           "generation_loop transport rni ps g i_b (i_g + 1) (s1, kb1) = Inr (s', kb')
                \<longrightarrow> k = nat (n_generations ps - (i_g + 1))"
        using IH by blast
      have n: "nat (n_generations ps - i_g) = Suc (nat (n_generations ps - (i_g + 1)))"
        using True by simp
      have "map snd (sync_log s') =
               map snd (sync_log s) @ replicate (Suc k) (0, bank_n (source_bank (sim s)))"
        using k(1) ge(1,2) by (simp add: replicate_app_Cons_same)
      then show ?thesis
        using k(2,3) n IH ge l by (intro conjI exI[where x = "Suc k"]) simp_all
    qed
  qed
qed

lemma batch_effect:
  assumes "batch transport rni ps g i_b s = Inl (e, s') \<or> batch transport rni ps g i_b s = Inr s'"
  shows "(\<exists>k. map snd (sync_log s') =
               map snd (sync_log s) @ replicate k (0, bank_n (source_bank (sim s)))
           \<and> k \<le> nat (n_generations ps)
           \<and> (0 < n_generations ps \<longrightarrow> 1 \<le> k)
           \<and> (batch transport rni ps g i_b s = Inr s' \<longrightarrow> k = nat (n_generations ps)))
    \<and> bank_n (source_bank (sim s')) = bank_n (source_bank (sim s))
    \<and> (batch transport rni ps g i_b s = Inl (e, s') \<longrightarrow>
          keff_log s' = keff_log s \<and> status_lines (events s') = status_lines (events s))
    \<and> (batch transport rni ps g i_b s = Inr s' \<longrightarrow>
          i_a s' = (if i_b \<ge> n_batches ps - n_active ps then i_a s + 1 else i_a s)
          \<and> length (keff s') = length (keff s)
          \<and> (\<exists>m sd. keff_log s' = keff_log s @ [(i_a s' + 1, m, sd)]
                \<and> status_lines (events s') =
                    status_lines (events s)
                      @ [(i_b + 1, if i_a s' < 0 then None else Some (m, sd))]))"
proof -
  define s0 where "s0 = s\<lparr>events := events s
                   @ (if write_bank ps then [Write_bank (source_bank (sim s))] else [])\<rparr>"
  define s1 where "s1 = (if i_b \<ge> n_batches ps - n_active ps
                then s0\<lparr>i_a := i_a s0 + 1, tallies_on := (tally ps \<or> tallies_on s0)\<rparr>
                else s0)"
  have s1: "sync_log s1 = sync_log s" "sim s1 = sim s" "keff_log s1 = keff_log s"
    "keff s1 = keff s"
    "i_a s1 = (if i_b \<ge> n_batches ps - n_active ps then i_a s + 1 else i_a s)"
    "status_lines (events s1) = status_lines (events s)"
    by (simp_all add: s1_def s0_def status_lines_append)
  have b: "batch transport rni ps g i_b s =
      (case generation_loop transport rni ps g i_b 0 (s1, Finite 0) of
           Inl f \<Rightarrow> Inl f
         | Inr (s2, keff_batch) \<Rightarrow>
             (let keff_batch' = d_div keff_batch (Finite (of_int (n_generations ps)))
              in if 0 \<le> i_a s2 \<and> length (keff s2) \<le> nat (i_a s2)
                 then Inl (Out_of_bounds, s2)
                 else
                   (let s3 = (if 0 \<le> i_a s2
                              then s2\<lparr>keff := (keff s2)[nat (i_a s2) := keff_batch']\<rparr>
                              else s2);
                        s4 = s3\<lparr>events := events s3
                               @ (if tallies_on s3 \<and> write_tally ps then [Write_tally] else [])\<rparr>;
                        (keff_mean, keff_std) = calculate_keff (keff s4) (i_a s4 + 1)
                    in Inr (s4\<lparr>keff_log := keff_log s4 @ [(i_a s4 + 1, keff_mean, keff_std)],
                               events := events s4 @
                                 [Status (i_b + 1) (run_H s4) keff_batch'
                                    (if i_a s4 < 0 then None
                                     else Some (keff_mean, keff_std))]\<rparr>))))"
    unfolding batch_def s0_def s1_def Let_def ..
  show ?thesis
  proof (cases "generation_loop transport rni ps g i_b 0 (s1, Finite 0)")
    case (Inl f)
    then have bf: "batch transport rni ps g i_b s = Inl f" unfolding b by simp
    then have f: "f = (e, s')" using assms by simp
    note ge = generation_loop_effect[of transport rni ps g i_b 0 s1 "Finite 0" e s' "Finite 0",
        OF disjI1, OF Inl[unfolded f] ]
    show ?thesis using ge bf s1 by auto
  next
    case (Inr sk)
    obtain s2 kbv where sk: "sk = (s2, kbv)" by (cases sk)
    note ge = generation_loop_effect[of transport rni ps g i_b 0 s1 "Finite 0" e s2 kbv,
        OF disjI2, OF Inr[unfolded sk] ]
    have k: "map snd (sync_log s2) =
               map snd (sync_log s) @ replicate (nat (n_generations ps)) (0, bank_n (source_bank (sim s)))"
      using ge Inr sk s1 by auto
    show ?thesis
    proof (cases "0 \<le> i_a s2 \<and> length (keff s2) \<le> nat (i_a s2)")
      case True
      then have bf: "batch transport rni ps g i_b s = Inl (Out_of_bounds, s2)"
        unfolding b Inr sk by simp
      then have f: "s' = s2" using assms by simp
      show ?thesis unfolding f using k ge bf s1
        by (intro conjI exI[where x = "nat (n_generations ps)"]) auto
    next
      case False
      define kb' where "kb' = d_div kbv (Finite (of_int (n_generations ps)))"
      define s3 where "s3 = (if 0 \<le> i_a s2
                              then s2\<lparr>keff := (keff s2)[nat (i_a s2) := kb']\<rparr>
                              else s2)"
      define s4 where "s4 = s3\<lparr>events := events s3
                               @ (if tallies_on s3 \<and> write_tally ps then [Write_tally] else [])\<rparr>"
      obtain m sd where c: "calculate_keff (keff s4) (i_a s4 + 1) = (m, sd)"
        by (cases "calculate_keff (keff s4) (i_a s4 + 1)")
      define s5 where "s5 = s4\<lparr>keff_log := keff_log s4 @ [(i_a s4 + 1, m, sd)],
                               events := events s4 @
                                 [Status (i_b + 1) (run_H s4) kb'
                                    (if i_a s4 < 0 then None else Some (m, sd))]\<rparr>"
      have bf: "batch transport rni ps g i_b s = Inr s5"
        using False c unfolding b Inr sk Let_def s5_def s4_def s3_def kb'_def by simp
      then have f: "s' = s5" using assms by simp
      have e5: "sync_log s5 = sync_log s2" "sim s5 = sim s2" "i_a s5 = i_a s2"
        "length (keff s5) = length (keff s2)"
        "keff_log s5 = keff_log s2 @ [(i_a s2 + 1, m, sd)]"
        "status_lines (events s5) = status_lines (events s2)
           @ [(i_b + 1, if i_a s2 < 0 then None else Some (m, sd))]"
        by (simp_all add: s5_def s4_def s3_def status_lines_append)
      show ?thesis unfolding f using k ge bf s1 e5
        by (intro conjI exI[where x = "nat (n_generations ps)"]) auto
    qed
  qed
qed

lemma batch_loop_effect:
  assumes "batch_loop transport rni ps g i_b s = Inl (e, s')
         \<or> batch_loop transport rni ps g i_b s = Inr s'"
    and "0 \<le> i_b"
    and "i_a s = max (i_b - max 0 (n_batches ps - n_active ps)) 0 - 1"
  shows "(\<exists>k. map snd (sync_log s') =
               map snd (sync_log s) @ replicate k (0, bank_n (source_bank (sim s)))
           \<and> k \<le> nat (n_batches ps - i_b) * nat (n_generations ps)
           \<and> (i_b < n_batches ps \<and> 0 < n_generations ps \<longrightarrow> 1 \<le> k)
           \<and> (batch_loop transport rni ps g i_b s = Inr s'
                \<longrightarrow> k = nat (n_batches ps - i_b) * nat (n_generations ps)))
    \<and> bank_n (source_bank (sim s')) = bank_n (source_bank (sim s))
    \<and> (\<exists>new. keff_log s' = keff_log s @ new
           \<and> length new \<le> nat (n_batches ps - i_b)
           \<and> (batch_loop transport rni ps g i_b s = Inr s'
                \<longrightarrow> length new = nat (n_batches ps - i_b))
           \<and> map fst new = map (active_batches ps) [i_b..i_b + int (length new) - 1]
           \<and> status_lines (events s') =
               status_lines (events s)
                 @ map status_of_call (zip [i_b..i_b + int (length new) - 1] new))"
  using assms
proof (induction transport rni ps g i_b s rule: batch_loop.induct)
  case (1 transport rni ps g i_b s)
  show ?case
  proof (cases "i_b < n_batches ps")
    case False
    then have "batch_loop transport rni ps g i_b s = Inr s"
      by (subst batch_loop.simps) simp
    then have "s' = s" using "1.prems"(1) by simp
    then show ?thesis using False by simp
  next
    case True
    show ?thesis
    proof (cases "batch transport rni ps g i_b s")
      case (Inl f)
      then have l: "batch_loop transport rni ps g i_b s = Inl f"
        using True by (subst batch_loop.simps) simp
      then have f: "f = (e, s')" using "1.prems"(1) by simp
      note be = batch_effect[of transport rni ps g i_b s e s', OF disjI1, OF Inl[unfolded f] ]
      obtain k where k: "map snd (sync_log s') =
               map snd (sync_log s) @ replicate k (0, bank_n (source_bank (sim s)))"
           "k \<le> nat (n_generations ps)" "0 < n_generations ps \<longrightarrow> 1 \<le> k"
        using be by blast
      have "1 \<le> nat (n_batches ps - i_b)" using True by simp
      then have "1 * nat (n_generations ps) \<le> nat (n_batches ps - i_b) * nat (n_generations ps)"
        by (rule mult_le_mono1)
      then have kb: "k \<le> nat (n_batches ps - i_b) * nat (n_generations ps)"
        using k(2) by linarith
      have 1: "\<exists>k. map snd (sync_log s') =
               map snd (sync_log s) @ replicate k (0, bank_n (source_bank (sim s)))
           \<and> k \<le> nat (n_batches ps - i_b) * nat (n_generations ps)
           \<and> (i_b < n_batches ps \<and> 0 < n_generations ps \<longrightarrow> 1 \<le> k)
           \<and> (batch_loop transport rni ps g i_b s = Inr s'
                \<longrightarrow> k = nat (n_batches ps - i_b) * nat (n_generations ps))"
        using k(1,3) kb l by (intro exI[where x = k]) simp
      have 2: "\<exists>new. keff_log s' = keff_log s @ new
           \<and> length new \<le> nat (n_batches ps - i_b)
           \<and> (batch_loop transport rni ps g i_b s = Inr s'
                \<longrightarrow> length new = nat (n_batches ps - i_b))
           \<and> map fst new = map (active_batches ps) [i_b..i_b + int (length new) - 1]
           \<and> status_lines (events s') =
               status_lines (events s)
                 @ map status_of_call (zip [i_b..i_b + int (length new) - 1] new)"
        using be Inl f l by (intro exI[where x = "[]"]) simp
      show ?thesis using 1 2 be by blast
    next
      case (Inr s1)
      have l: "batch_loop transport rni ps g i_b s = batch_loop transport rni ps g (i_b + 1) s1"
        using True Inr by (subst batch_loop.simps) simp
      note be = batch_effect[of transport rni ps g i_b s e s1, OF disjI2, OF Inr]
      have ia1: "i_a s1 = (if i_b \<ge> n_batches ps - n_active ps then i_a s + 1 else i_a s)"
        using be Inr by blast
      have ia: "i_a s1 = max (i_b + 1 - max 0 (n_batches ps - n_active ps)) 0 - 1"
        using ia1 "1.prems"(2,3) by (auto simp: max_def)
      have arg: "i_a s1 + 1 = active_batches ps i_b"
        using ia1 "1.prems"(2,3) by (auto simp: active_batches_def max_def)
      obtain m sd where c: "keff_log s1 = keff_log s @ [(i_a s1 + 1, m, sd)]"
          "status_lines (events s1) =
             status_lines (events s) @ [(i_b + 1, if i_a s1 < 0 then None else Some (m, sd))]"
        using be Inr by blast
      have st: "(i_b + 1, if i_a s1 < 0 then None else Some (m, sd)) =
                status_of_call (i_b, i_a s1 + 1, m, sd)"
        by (simp add: status_of_call_def)
      have src: "bank_n (source_bank (sim s1)) = bank_n (source_bank (sim s))"
        using be by blast
      have k1: "map snd (sync_log s1) =
               map snd (sync_log s) @ replicate (nat (n_generations ps)) (0, bank_n (source_bank (sim s)))"
        using be Inr by auto
      have p0: "0 \<le> i_b + 1" using "1.prems"(2) by simp
      note IH = "1.IH"[OF True Inr "1.prems"(1)[unfolded l] p0 ia]
      obtain k where k: "map snd (sync_log s') =
               map snd (sync_log s1) @ replicate k (0, bank_n (source_bank (sim s1)))"
           "k \<le> nat (n_batches ps - (i_b + 1)) * nat (n_generations ps)"
           "batch_loop transport rni ps g (i_b + 1) s1 = Inr s'
                \<longrightarrow> k = nat (n_batches ps - (i_b + 1)) * nat (n_generations ps)"
        using IH by blast
      obtain new where new: "keff_log s' = keff_log s1 @ new"
           "length new \<le> nat (n_batches ps - (i_b + 1))"
           "batch_loop transport rni ps g (i_b + 1) s1 = Inr s'
                \<longrightarrow> length new = nat (n_batches ps - (i_b + 1))"
           "map fst new = map (active_batches ps) [i_b + 1..i_b + 1 + int (length new) - 1]"
           "status_lines (events s') =
               status_lines (events s1)
                 @ map status_of_call (zip [i_b + 1..i_b + 1 + int (length new) - 1] new)"
        using IH by blast
      have n: "nat (n_batches ps - i_b) = Suc (nat (n_batches ps - (i_b + 1)))"
        using True by simp
      have 1: "\<exists>k. map snd (sync_log s') =
               map snd (sync_log s) @ replicate k (0, bank_n (source_bank (sim s)))
           \<and> k \<le> nat (n_batches ps - i_b) * nat (n_generations ps)
           \<and> (i_b < n_batches ps \<and> 0 < n_generations ps \<longrightarrow> 1 \<le> k)
           \<and> (batch_loop transport rni ps g i_b s = Inr s'
                \<longrightarrow> k = nat (n_batches ps - i_b) * nat (n_generations ps))"
        using k k1 src l n
        by (intro exI[where x = "nat (n_generations ps) + k"]) (auto simp: replicate_add)
      define new' where "new' = (i_a s1 + 1, m, sd) # new"
      have up: "[i_b..i_b + int (length new') - 1] = i_b # [i_b + 1..i_b + 1 + int (length new) - 1]"
        by (simp add: new'_def upto_rec1)
      have 2: "\<exists>new. keff_log s' = keff_log s @ new
           \<and> length new \<le> nat (n_batches ps - i_b)
           \<and> (batch_loop transport rni ps g i_b s = Inr s'
                \<longrightarrow> length new = nat (n_batches ps - i_b))
           \<and> map fst new = map (active_batches ps) [i_b..i_b + int (length new) - 1]
           \<and> status_lines (events s') =
               status_lines (events s)
                 @ map status_of_call (zip [i_b..i_b + int (length new) - 1] new)"
        apply (intro exI[where x = new'])
        unfolding up
        using new c arg st l n
        apply (simp add: new'_def)
        done
      show ?thesis using 1 2 IH src by simp
    qed
  qed
qed

text \<open>Runs that return: when every generation started in a state of the simulation
  that satisfies \<open>J\<close> returns and leaves such a state, and the caller's array \<open>keff\<close>
  has an entry for every active batch, the driver returns.\<close>

lemma generation_loop_returns:
  assumes step: "\<forall>s kb i_g. J (sim s) \<longrightarrow>
      (\<exists>s' kb'. generation transport rni ps g i_b i_g (s, kb) = Inr (s', kb') \<and> J (sim s'))"
  shows "nat (n_generations ps - i_g) = n \<Longrightarrow> J (sim s) \<Longrightarrow>
     \<exists>s' kb'. generation_loop transport rni ps g i_b i_g (s, kb) = Inr (s', kb') \<and> J (sim s')"
proof (induction n arbitrary: i_g s kb)
  case 0
  then have "\<not> i_g < n_generations ps" by simp
  then have "generation_loop transport rni ps g i_b i_g (s, kb) = Inr (s, kb)"
    by (subst generation_loop.simps) simp
  then show ?case using "0.prems"(2) by simp
next
  case (Suc n)
  then have lt: "i_g < n_generations ps" by simp
  obtain s1 kb1 where g: "generation transport rni ps g i_b i_g (s, kb) = Inr (s1, kb1)"
    and j: "J (sim s1)"
    using step Suc.prems(2) by blast
  have "nat (n_generations ps - (i_g + 1)) = n" using Suc.prems(1) by simp
  from Suc.IH[OF this j, of kb1] obtain s' kb' where
    "generation_loop transport rni ps g i_b (i_g + 1) (s1, kb1) = Inr (s', kb')" "J (sim s')"
    by blast
  then show ?case using lt g by (subst generation_loop.simps) simp
qed

lemma batch_returns:
  assumes step: "\<forall>s kb i_g. J (sim s) \<longrightarrow>
      (\<exists>s' kb'. generation transport rni ps g i_b i_g (s, kb) = Inr (s', kb') \<and> J (sim s'))"
    and j: "J (sim s)"
    and bound: "(if i_b \<ge> n_batches ps - n_active ps then i_a s + 1 else i_a s) < int (length (keff s))"
  shows "\<exists>s'. batch transport rni ps g i_b s = Inr s' \<and> J (sim s')"
proof -
  define s0 where "s0 = s\<lparr>events := events s
                   @ (if write_bank ps then [Write_bank (source_bank (sim s))] else [])\<rparr>"
  define s1 where "s1 = (if i_b \<ge> n_batches ps - n_active ps
                then s0\<lparr>i_a := i_a s0 + 1, tallies_on := (tally ps \<or> tallies_on s0)\<rparr>
                else s0)"
  have s1: "sim s1 = sim s" "keff s1 = keff s"
    "i_a s1 = (if i_b \<ge> n_batches ps - n_active ps then i_a s + 1 else i_a s)"
    by (simp_all add: s1_def s0_def)
  obtain s2 kbv where gl: "generation_loop transport rni ps g i_b 0 (s1, Finite 0) = Inr (s2, kbv)"
    and j2: "J (sim s2)"
    using generation_loop_returns[OF step refl, of s1 0 "Finite 0"] j s1 by auto
  note ge = generation_loop_effect[of transport rni ps g i_b 0 s1 "Finite 0" undefined s2 kbv,
      OF disjI2, OF gl]
  have ok: "\<not> (0 \<le> i_a s2 \<and> length (keff s2) \<le> nat (i_a s2))"
    using ge s1 bound by auto
  define kb' where "kb' = d_div kbv (Finite (of_int (n_generations ps)))"
  define s3 where "s3 = (if 0 \<le> i_a s2
                              then s2\<lparr>keff := (keff s2)[nat (i_a s2) := kb']\<rparr>
                              else s2)"
  define s4 where "s4 = s3\<lparr>events := events s3
                               @ (if tallies_on s3 \<and> write_tally ps then [Write_tally] else [])\<rparr>"
  obtain m sd where c: "calculate_keff (keff s4) (i_a s4 + 1) = (m, sd)"
    by (cases "calculate_keff (keff s4) (i_a s4 + 1)")
  define s5 where "s5 = s4\<lparr>keff_log := keff_log s4 @ [(i_a s4 + 1, m, sd)],
                               events := events s4 @
                                 [Status (i_b + 1) (run_H s4) kb'
                                    (if i_a s4 < 0 then None else Some (m, sd))]\<rparr>"
  have "batch transport rni ps g i_b s = Inr s5"
    using ok c gl
    unfolding batch_def s0_def[symmetric] s1_def[symmetric] Let_def s5_def s4_def s3_def kb'_def
    by simp
  moreover have "sim s5 = sim s2" by (simp add: s5_def s4_def s3_def)
  ultimately show ?thesis using j2 by simp
qed

lemma batch_loop_returns:
  assumes step: "\<forall>i_b s kb i_g. J (sim s) \<longrightarrow>
      (\<exists>s' kb'. generation transport rni ps g i_b i_g (s, kb) = Inr (s', kb') \<and> J (sim s'))"
    and len: "n_batches ps - max 0 (n_batches ps - n_active ps) \<le> int L"
  shows "nat (n_batches ps - i_b) = n \<Longrightarrow> J (sim s) \<Longrightarrow> 0 \<le> i_b \<Longrightarrow>
     i_a s = max (i_b - max 0 (n_batches ps - n_active ps)) 0 - 1 \<Longrightarrow> length (keff s) = L \<Longrightarrow>
     \<exists>s'. batch_loop transport rni ps g i_b s = Inr s'"
proof (induction n arbitrary: i_b s)
  case 0
  then have "\<not> i_b < n_batches ps" by simp
  then show ?case by (subst batch_loop.simps) simp
next
  case (Suc n)
  then have lt: "i_b < n_batches ps" by simp
  have bound: "(if i_b \<ge> n_batches ps - n_active ps then i_a s + 1 else i_a s) < int (length (keff s))"
    using Suc.prems(3,4,5) lt len by (auto simp: max_def split: if_splits)
  have st: "\<forall>s kb i_g. J (sim s) \<longrightarrow>
      (\<exists>s' kb'. generation transport rni ps g i_b i_g (s, kb) = Inr (s', kb') \<and> J (sim s'))"
    using step by blast
  obtain s1 where b: "batch transport rni ps g i_b s = Inr s1" and j: "J (sim s1)"
    using batch_returns[OF st Suc.prems(2) bound] by blast
  note be = batch_effect[of transport rni ps g i_b s undefined s1, OF disjI2, OF b]
  have ia1: "i_a s1 = (if i_b \<ge> n_batches ps - n_active ps then i_a s + 1 else i_a s)"
    and l1: "length (keff s1) = L"
    using be b Suc.prems(5) by auto
  have ia: "i_a s1 = max (i_b + 1 - max 0 (n_batches ps - n_active ps)) 0 - 1"
    using ia1 Suc.prems(3,4) by (auto simp: max_def)
  have "nat (n_batches ps - (i_b + 1)) = n" using Suc.prems(1) by simp
  from Suc.IH[OF this j _ ia l1] Suc.prems(3)
  obtain s' where "batch_loop transport rni ps g (i_b + 1) s1 = Inr s'" by auto
  then show ?case using lt b by (subst batch_loop.simps) simp
qed

lemma batch_loop_run_returns:
  assumes step: "\<forall>i_b s kb i_g. J (sim s) \<longrightarrow>
      (\<exists>s' kb'. generation transport rni ps g i_b i_g (s, kb) = Inr (s', kb') \<and> J (sim s'))"
    and len: "n_batches ps - max 0 (n_batches ps - n_active ps) \<le> int (length keff0)"
    and j: "J st"
  shows "\<exists>s'. batch_loop transport rni ps g 0 (initial_run st t_on keff0) = Inr s'"
  by (rule batch_loop_returns[OF step len refl]) (use j in \<open>simp_all add: initial_run_def\<close>)

lemma particle_loop_copy:
  assumes "n_particles ps \<le> length (bank_p (source_bank st))"
    and "bank_n (fission_bank st) = i_p" and "i_p \<le> n_particles ps"
    and "n_particles ps \<le> length (bank_p (fission_bank st))"
  shows "fission_bank (particle_loop transport_copy ps i_b i_g i_p st) =
           \<lparr>bank_n = n_particles ps,
            bank_p = take i_p (bank_p (fission_bank st))
                     @ drop i_p (take (n_particles ps) (bank_p (source_bank st)))
                     @ drop (n_particles ps) (bank_p (fission_bank st))\<rparr>"
  using assms
proof (induction "transport_copy :: 'a transport" ps i_b i_g i_p st rule: particle_loop.induct)
  case (1 ps i_b i_g i_p st)
  define N where "N = n_particles ps"
  define fb where "fb = fission_bank st"
  define sbp where "sbp = bank_p (source_bank st)"
  show ?case
  proof (cases "i_p < n_particles ps")
    case False
    then have e: "i_p = N" using "1.prems" by (simp add: N_def)
    have "fission_bank st = \<lparr>bank_n = N, bank_p = bank_p (fission_bank st)\<rparr>"
      using "1.prems"(2) e by simp
    then show ?thesis using False e
      by (subst particle_loop.simps) (simp add: N_def[symmetric])
  next
    case True
    define st1 where "st1 = st\<lparr>fission_bank := transport_copy
        (nat ((i_b * n_generations ps + i_g) * int (n_particles ps) + int i_p))
        (source_bank st) (bank_p (source_bank st) ! i_p) (fission_bank st)\<rparr>"
    have f1: "fission_bank st1 = \<lparr>bank_n = i_p + 1, bank_p = (bank_p fb)[i_p := sbp ! i_p]\<rparr>"
      using "1.prems"(2) by (simp add: st1_def transport_copy_def fb_def sbp_def)
    have s1: "source_bank st1 = source_bank st" by (simp add: st1_def)
    have IH: "fission_bank (particle_loop transport_copy ps i_b i_g (i_p + 1) st1) =
           \<lparr>bank_n = n_particles ps,
            bank_p = take (i_p + 1) (bank_p (fission_bank st1))
                     @ drop (i_p + 1) (take (n_particles ps) (bank_p (source_bank st1)))
                     @ drop (n_particles ps) (bank_p (fission_bank st1))\<rparr>"
      unfolding st1_def
      by (rule "1.hyps"[OF True]) (use "1.prems" True in \<open>simp_all add: transport_copy_def\<close>)
    have ipf: "i_p < length (bank_p fb)" using True "1.prems" by (simp add: fb_def)
    have ips: "i_p < length (take N sbp)" using True "1.prems" by (simp add: N_def sbp_def)
    have a: "take (i_p + 1) ((bank_p fb)[i_p := sbp ! i_p]) = take i_p (bank_p fb) @ [sbp ! i_p]"
      using ipf by (simp add: take_Suc_conv_app_nth)
    have b: "drop i_p (take N sbp) = sbp ! i_p # drop (i_p + 1) (take N sbp)"
      using ips by (metis Cons_nth_drop_Suc Suc_eq_plus1 length_take min_less_iff_conj nth_take)
    have c: "drop N ((bank_p fb)[i_p := sbp ! i_p]) = drop N (bank_p fb)"
      using True by (simp add: N_def)
    have e: "particle_loop transport_copy ps i_b i_g i_p st =
          particle_loop transport_copy ps i_b i_g (i_p + 1) st1"
      by (subst particle_loop.simps) (simp add: True st1_def)
    show ?thesis
      unfolding e IH f1 s1 N_def[symmetric] fb_def[symmetric] sbp_def[symmetric]
      by (simp add: a[simplified] b[simplified] c)
  qed
qed

lemma shannon_entropy_returns:
  assumes "20 \<le> bank_n b" "bank_n b \<le> length (bank_p b)" "bank_n b < 2 ^ 64"
    and "list_all (in_box g) (take (bank_n b) (bank_p b))"
  shows "\<exists>h. shannon_entropy g b = Inr h"
  using shannon_entropy_value[OF assms refl] by blast

lemma generation_returns:
  assumes "shannon_entropy g
             (source_bank (synchronize_bank rni (particle_loop transport ps i_b i_g 0 (sim s))))
           = Inr h"
  shows "\<exists>s' kb'. generation transport rni ps g i_b i_g (s, kb) = Inr (s', kb')
           \<and> sim s' = synchronize_bank rni (particle_loop transport ps i_b i_g 0 (sim s))"
  using assms by (simp add: generation_def Let_def)

text \<open>Scenario S1: when transport leaves one fission site for every source particle, in
  order, a generation draws no random number, leaves the source bank as it was and, when
  the source bank holds at least twenty particles inside the box, returns.\<close>

lemma generation_copy:
  assumes N: "bank_n sb = n_particles ps" "20 \<le> n_particles ps" "n_particles ps < 2 ^ 64"
    and cap: "n_particles ps \<le> length (bank_p sb)"
    and box: "list_all (in_box g) (take (n_particles ps) (bank_p sb))"
    and src: "source_bank (sim s) = sb"
    and empty: "bank_n (fission_bank (sim s)) = 0"
    and capf: "n_particles ps \<le> length (bank_p (fission_bank (sim s)))"
  shows "\<exists>s' kb'. generation transport_copy rni ps g i_b i_g (s, kb) = Inr (s', kb')
           \<and> source_bank (sim s') = sb \<and> bank_n (fission_bank (sim s')) = 0
           \<and> n_particles ps \<le> length (bank_p (fission_bank (sim s')))"
proof -
  define st1 where "st1 = particle_loop transport_copy ps i_b i_g 0 (sim s)"
  define n where "n = n_particles ps"
  define sp where "sp = bank_p (source_bank (sim s))"
  define fp where "fp = bank_p (fission_bank (sim s))"
  have cap': "n_particles ps \<le> length (bank_p (source_bank (sim s)))" using cap src by simp
  have f1: "fission_bank st1 = \<lparr>bank_n = n, bank_p = take n sp @ drop n fp\<rparr>"
    unfolding st1_def n_def sp_def fp_def
    using particle_loop_copy[OF cap' empty _ capf, of i_b i_g] by simp
  have s1: "source_bank st1 = source_bank (sim s)" "rng st1 = rng (sim s)"
    unfolding st1_def by (simp_all add: particle_loop_frame)
  have nf: "bank_n (fission_bank st1) = n"
    and fpe: "bank_p (fission_bank st1) = take n sp @ drop n fp"
    by (simp_all add: f1)
  have nse: "bank_n (source_bank st1) = n" using N(1) s1 src by (simp add: n_def)
  have spe: "bank_p (source_bank st1) = sp" using s1 by (simp add: sp_def)
  have r: "reservoir_loop rni fp' n n n sp' r0 = (sp', r0)" for fp' :: "particle list" and sp' r0
    by (subst reservoir_loop.simps) simp
  have ln: "n \<le> length sp" using cap' by (simp add: n_def sp_def)
  have lf: "n \<le> length fp" using capf by (simp add: n_def fp_def)
  have cp: "memcpy_at sp 0 (take n sp @ drop n fp) n = sp"
    using ln by (simp add: memcpy_at_def)
  have sb: "(source_bank (sim s))\<lparr>bank_p := sp\<rparr> = source_bank (sim s)"
    unfolding sp_def by simp
  have sy: "synchronize_bank rni st1 =
            st1\<lparr>source_bank := source_bank (sim s),
                fission_bank := (fission_bank st1)\<lparr>bank_n := 0\<rparr>, rng := rng (sim s)\<rparr>"
    unfolding synchronize_bank_def Let_def nf fpe nse spe r cp
    by (simp add: sb s1)
  have src2: "source_bank (synchronize_bank rni st1) = sb" using sy src by simp
  obtain h where h: "shannon_entropy g sb = Inr h"
    using shannon_entropy_returns[of sb g] N cap box by auto
  have lenf: "n_particles ps \<le> length (bank_p (fission_bank (synchronize_bank rni st1)))"
    unfolding sy using ln lf by (simp add: f1 n_def)
  have nf2: "bank_n (fission_bank (synchronize_bank rni st1)) = 0" unfolding sy by simp
  show ?thesis
    using generation_returns[of g rni transport_copy ps i_b i_g s h kb, folded st1_def]
      src2 h lenf nf2 by auto
qed








text \<open>The driver ends with undefined behaviour when its loops do, and otherwise after
  them, by returning or in the \<^verbatim>\<open>exit\<close> of \<^verbatim>\<open>save_source\<close>; what follows the loops
  changes neither the banks nor the logs nor the status lines.\<close>

lemma run_eigenvalue_cases:
  assumes r: "r = run_eigenvalue transport rni fwrite ps g st t_on keff0"
  shows "(\<exists>e. batch_loop transport rni ps g 0 (initial_run st t_on keff0) = Inl (e, run_state r)
            \<and> faulted r)
       \<or> (\<exists>s. batch_loop transport rni ps g 0 (initial_run st t_on keff0) = Inr s
            \<and> \<not> faulted r
            \<and> sim (run_state r) = sim s \<and> sync_log (run_state r) = sync_log s
            \<and> keff_log (run_state r) = keff_log s
            \<and> status_lines (events (run_state r)) = status_lines (events s)
            \<and> (returned r
                 \<or> save_source_flag ps
                    \<and> r = Exit (print_error ''Error saving source.'') (run_state r)))"
proof (cases "batch_loop transport rni ps g 0 (initial_run st t_on keff0)")
  case (Inl f)
  obtain e s where f: "f = (e, s)" by (cases f)
  have "r = Undefined e s" unfolding r run_eigenvalue_def Inl f by simp
  then show ?thesis using Inl f by simp
next
  case (Inr s)
  define s1 where "s1 = s\<lparr>events := events s
                        @ (if write_keff ps then [Write_keff (keff s) (n_active ps)] else [])\<rparr>"
  have r1: "r = (if save_source_flag ps
              then (case save_source fwrite (source_bank (sim s1)) of
                      Some err \<Rightarrow> Exit err s1
                    | None \<Rightarrow>
                        Return (s1\<lparr>events := events s1
                                     @ [Save_source (source_bank (sim s1))]\<rparr>))
              else Return s1)"
    unfolding r run_eigenvalue_def Inr s1_def Let_def by simp
  have e1: "sim s1 = sim s" "sync_log s1 = sync_log s" "keff_log s1 = keff_log s"
    "status_lines (events s1) = status_lines (events s)"
    by (simp_all add: s1_def status_lines_append)
  have "\<not> faulted r \<and> sim (run_state r) = sim s \<and> sync_log (run_state r) = sync_log s
            \<and> keff_log (run_state r) = keff_log s
            \<and> status_lines (events (run_state r)) = status_lines (events s)
            \<and> (returned r
                 \<or> save_source_flag ps
                    \<and> r = Exit (print_error ''Error saving source.'') (run_state r))"
    unfolding r1 using e1
    by (auto simp: save_source_def Let_def status_lines_append split: option.splits)
  then show ?thesis using Inr by simp
qed

lemma run_eigenvalue_effect:
  assumes r: "r = run_eigenvalue transport rni fwrite ps g st t_on keff0"
  shows "(\<exists>k. map snd (sync_log (run_state r)) = replicate k (0, bank_n (source_bank st))
           \<and> k \<le> nat (n_batches ps) * nat (n_generations ps)
           \<and> (0 < n_batches ps \<and> 0 < n_generations ps \<longrightarrow> 1 \<le> k)
           \<and> (\<not> faulted r \<longrightarrow> k = nat (n_batches ps) * nat (n_generations ps)))
    \<and> bank_n (source_bank (sim (run_state r))) = bank_n (source_bank st)
    \<and> length (keff_log (run_state r)) \<le> nat (n_batches ps)
    \<and> (\<not> faulted r \<longrightarrow> length (keff_log (run_state r)) = nat (n_batches ps))
    \<and> map fst (keff_log (run_state r)) =
        map (active_batches ps) [0..int (length (keff_log (run_state r))) - 1]
    \<and> status_lines (events (run_state r)) =
        map status_of_call
          (zip [0..int (length (keff_log (run_state r))) - 1] (keff_log (run_state r)))"
proof -
  define s0 where "s0 = initial_run st t_on keff0"
  have i: "i_a s0 = max (0 - max 0 (n_batches ps - n_active ps)) 0 - 1"
    by (simp add: s0_def initial_run_def)
  have s0: "sync_log s0 = []" "keff_log s0 = []" "events s0 = []" "sim s0 = st"
    by (simp_all add: s0_def initial_run_def)
  from run_eigenvalue_cases[OF r, folded s0_def]
  consider (fault) e where "batch_loop transport rni ps g 0 s0 = Inl (e, run_state r)" "faulted r"
    | (complete) s where "batch_loop transport rni ps g 0 s0 = Inr s" "\<not> faulted r"
        "sim (run_state r) = sim s" "sync_log (run_state r) = sync_log s"
        "keff_log (run_state r) = keff_log s"
        "status_lines (events (run_state r)) = status_lines (events s)"
    by blast
  then show ?thesis
  proof cases
    case fault
    note e = batch_loop_effect[OF disjI1, OF fault(1) order_refl i]
    show ?thesis using e fault unfolding s0 by auto
  next
    case complete
    note e = batch_loop_effect[of transport rni ps g 0 s0 undefined s, OF disjI2,
        OF complete(1) order_refl i]
    show ?thesis using e complete(1,2) unfolding s0 complete(3-6) by auto
  qed
qed


lemma run_eigenvalue_not_faulted:
  assumes r: "r = run_eigenvalue transport rni fwrite ps g st t_on keff0"
    and b: "batch_loop transport rni ps g 0 (initial_run st t_on keff0) = Inr s"
  shows "\<not> faulted r" and "\<not> save_source_flag ps \<Longrightarrow> returned r"
  using run_eigenvalue_cases[OF r] b by auto

lemma copy_run_returns:
  assumes N: "bank_n (source_bank st) = n_particles ps" "20 \<le> n_particles ps"
      "n_particles ps < 2 ^ 64"
    and cap: "n_particles ps \<le> length (bank_p (source_bank st))"
    and box: "list_all (in_box g) (take (n_particles ps) (bank_p (source_bank st)))"
    and empty: "bank_n (fission_bank st) = 0"
    and capf: "n_particles ps \<le> length (bank_p (fission_bank st))"
    and len: "n_batches ps - max 0 (n_batches ps - n_active ps) \<le> int (length keff0)"
    and ns: "\<not> save_source_flag ps"
  shows "returned (run_eigenvalue transport_copy rni fwrite ps g st t_on keff0)"
proof -
  define J :: "(particle, 'a) sim \<Rightarrow> bool" where
    "J = (\<lambda>st'. source_bank st' = source_bank st \<and> bank_n (fission_bank st') = 0
              \<and> n_particles ps \<le> length (bank_p (fission_bank st')))"
  have step: "\<forall>i_b s kb i_g. J (sim s) \<longrightarrow>
      (\<exists>s' kb'. generation transport_copy rni ps g i_b i_g (s, kb) = Inr (s', kb') \<and> J (sim s'))"
    unfolding J_def using generation_copy[OF N cap box] by blast
  have "J st" using empty capf by (simp add: J_def)
  from batch_loop_run_returns[OF step len this]
  show ?thesis using run_eigenvalue_not_faulted(2)[OF refl _ ns] by blast
qed


lemma returned_not_faulted: "returned r \<Longrightarrow> \<not> faulted r"
  by (cases r) simp_all

lemma driver_example_facts:
  "bank_n (source_bank driver_example) = 20" "bank_n (fission_bank driver_example) = 0"
  "length (bank_p (source_bank driver_example)) = 20"
  "length (bank_p (fission_bank driver_example)) = 40"
  "list_all (in_box unit_box) (take 20 (bank_p (source_bank driver_example)))"
  "list_all (in_box unit_box) (bank_p (source_bank driver_example))"
  "list_all (in_box unit_box) (bank_p (fission_bank driver_example))"
  by (simp_all add: driver_example_def in_box_def unit_box_def list_all_length)

lemma driver_run_returns: "returned driver_run"
  unfolding driver_run_def
  by (rule copy_run_returns) (simp_all add: driver_example_facts driver_params_def)

lemma inactive_run_returns: "returned inactive_run"
  unfolding inactive_run_def
  by (rule copy_run_returns)
     (simp_all add: driver_example_facts driver_params_def inactive_params_def)


text \<open>The driver ends in \<^verbatim>\<open>exit\<close> only through \<^verbatim>\<open>save_source\<close>, after the last batch: it
  has then printed the line of \<^verbatim>\<open>print_error\<close> for a short write and made all its calls of
  \<^verbatim>\<open>synchronize_bank\<close>.\<close>

theorem run_eigenvalue_exit:
  assumes "run_eigenvalue transport rni fwrite ps g st t_on keff0 = Exit err s"
  shows "save_source_flag ps \<and> err = (''ERROR: Error saving source.'' @ [CHR 0x0A], 1)
       \<and> fwrite (source_bank (sim s)) \<noteq> bank_n (source_bank (sim s))
       \<and> length (sync_log s) = nat (n_batches ps) * nat (n_generations ps)"
proof -
  define r where "r = run_eigenvalue transport rni fwrite ps g st t_on keff0"
  have r: "r = Exit err s" unfolding r_def using assms .
  have nf: "\<not> faulted r" "\<not> returned r" "run_state r = s" unfolding r by simp_all
  obtain k where k: "map snd (sync_log s) = replicate k (0, bank_n (source_bank st))"
      "k = nat (n_batches ps) * nat (n_generations ps)"
    using run_eigenvalue_effect[OF r_def] nf by auto
  have l: "length (sync_log s) = nat (n_batches ps) * nat (n_generations ps)"
    using k by (metis length_map length_replicate)
  have e: "save_source_flag ps \<and> err = print_error ''Error saving source.''"
    using run_eigenvalue_cases[OF r_def] nf r by auto
  have "fwrite (source_bank (sim s)) \<noteq> bank_n (source_bank (sim s))"
    using assms e
    by (auto simp: run_eigenvalue_def save_source_def Let_def
        split: sum.splits prod.splits if_splits option.splits)
  then show ?thesis using e l by (simp add: print_error_def)
qed

theorem run_eigenvalue_exit_witness:
  "run_eigenvalue transport_copy rni_low (\<lambda>b. 0) (driver_params\<lparr>save_source_flag := True\<rparr>)
     unit_box driver_example False [Finite 0, Finite 0]
   = Exit (''ERROR: Error saving source.'' @ [CHR 0x0A], 1)
       (run_state (run_eigenvalue transport_copy rni_low (\<lambda>b. 0)
          (driver_params\<lparr>save_source_flag := True\<rparr>) unit_box driver_example False
          [Finite 0, Finite 0]))
   \<and> length (sync_log (run_state (run_eigenvalue transport_copy rni_low (\<lambda>b. 0)
          (driver_params\<lparr>save_source_flag := True\<rparr>) unit_box driver_example False
          [Finite 0, Finite 0]))) = 6"
proof -
  define r where "r = run_eigenvalue transport_copy rni_low (\<lambda>b. 0)
     (driver_params\<lparr>save_source_flag := True\<rparr>) unit_box driver_example False
     [Finite 0, Finite 0]"
  define J :: "(particle, unit) sim \<Rightarrow> bool" where
    "J = (\<lambda>st'. source_bank st' = source_bank driver_example \<and> bank_n (fission_bank st') = 0
              \<and> 20 \<le> length (bank_p (fission_bank st')))"
  have step: "\<forall>i_b s kb i_g. J (sim s) \<longrightarrow>
      (\<exists>s' kb'. generation transport_copy rni_low (driver_params\<lparr>save_source_flag := True\<rparr>)
          unit_box i_b i_g (s, kb) = Inr (s', kb') \<and> J (sim s'))"
    unfolding J_def
    using generation_copy[where sb = "source_bank driver_example"
        and ps = "driver_params\<lparr>save_source_flag := True\<rparr>" and g = unit_box
        and rni = rni_low]
    by (simp add: driver_example_facts driver_params_def)
  have "J driver_example" by (simp add: J_def driver_example_facts)
  from batch_loop_run_returns[OF step _ this, of "[Finite 0, Finite 0]" False]
  obtain s where b: "batch_loop transport_copy rni_low (driver_params\<lparr>save_source_flag := True\<rparr>)
      unit_box 0 (initial_run driver_example False [Finite 0, Finite 0]) = Inr s"
    by (auto simp: driver_params_def)
  have src: "bank_n (source_bank (sim (run_state r))) = 20"
    using run_eigenvalue_effect[OF r_def] by (simp add: driver_example_facts)
  have e: "r = Exit (print_error ''Error saving source.'') (run_state r)"
    unfolding r_def run_eigenvalue_def b
    using src[unfolded r_def run_eigenvalue_def b]
    by (simp add: save_source_def Let_def driver_params_def split: if_splits)
  have "length (sync_log (run_state r)) = 6"
    using run_eigenvalue_exit[OF e[unfolded r_def] ] by (simp add: driver_params_def r_def)
  then show ?thesis using e unfolding r_def by (simp add: print_error_def)
qed

text \<open>
  Claim C3. Population conservation. If the source bank holds \<open>N = n_particles\<close>
  particles when the driver starts, then every call of \<^verbatim>\<open>synchronize_bank\<close> that the run
  makes leaves \<open>fission_bank.n = 0\<close> and \<open>source_bank.n = N\<close>, and the source bank holds
  \<open>N\<close> particles in the state in which the run ends, whether the run returns, ends in
  \<^verbatim>\<open>exit\<close> or is left undefined by \<^verbatim>\<open>shannon_entropy\<close> or by a write outside \<open>keff\<close>. The
  run makes at least one call when it has a generation to run and, unless its behaviour
  is undefined, all \<open>n_batches \<sqdot> n_generations\<close> calls. \<^verbatim>\<open>synchronize_bank\<close> sets
  \<open>fission_bank.n\<close> to 0 and does not change \<open>source_bank.n\<close>.
\<close>

theorem run_eigenvalue_population:
  assumes N: "bank_n (source_bank st) = n_particles ps"
    and r: "r = run_eigenvalue transport rni fwrite ps g st t_on keff0"
  shows "map snd (sync_log (run_state r)) =
           replicate (length (sync_log (run_state r))) (0, n_particles ps)
       \<and> length (sync_log (run_state r)) \<le> nat (n_batches ps) * nat (n_generations ps)
       \<and> (0 < n_batches ps \<and> 0 < n_generations ps \<longrightarrow> 1 \<le> length (sync_log (run_state r)))
       \<and> (\<not> faulted r \<longrightarrow>
            length (sync_log (run_state r)) = nat (n_batches ps) * nat (n_generations ps))
       \<and> bank_n (source_bank (sim (run_state r))) = n_particles ps
       \<and> bank_n (fission_bank (synchronize_bank rni st)) = 0
       \<and> bank_n (source_bank (synchronize_bank rni st)) = bank_n (source_bank st)"
proof -
  obtain k where k: "map snd (sync_log (run_state r)) = replicate k (0, bank_n (source_bank st))"
      "k \<le> nat (n_batches ps) * nat (n_generations ps)"
      "0 < n_batches ps \<and> 0 < n_generations ps \<longrightarrow> 1 \<le> k"
      "\<not> faulted r \<longrightarrow> k = nat (n_batches ps) * nat (n_generations ps)"
    and src: "bank_n (source_bank (sim (run_state r))) = bank_n (source_bank st)"
    using run_eigenvalue_effect[OF r] by blast
  have "length (sync_log (run_state r)) = k" using k(1) by (metis length_map length_replicate)
  then show ?thesis using k src N by (simp add: synchronize_bank_counts)
qed

theorem run_eigenvalue_population_witness:
  "bank_n (source_bank driver_example) = n_particles driver_params
   \<and> returned driver_run
   \<and> map snd (sync_log (run_state driver_run)) =
       [(0, 20), (0, 20), (0, 20), (0, 20), (0, 20), (0, 20)]
   \<and> bank_n (source_bank (sim (run_state driver_run))) = 20"
proof -
  have h: "bank_n (source_bank driver_example) = n_particles driver_params"
    by (simp add: driver_example_def driver_params_def)
  have l: "nat (n_batches driver_params) * nat (n_generations driver_params) = 6"
    by (simp add: driver_params_def)
  have r: "replicate 6 (0::nat, n_particles driver_params) =
           [(0, 20), (0, 20), (0, 20), (0, 20), (0, 20), (0, 20)]"
    by (simp add: driver_params_def eval_nat_numeral)
  show ?thesis
    using run_eigenvalue_population[OF h driver_run_def] driver_run_returns
      returned_not_faulted[OF driver_run_returns] h
    unfolding l by (simp add: r) (simp add: driver_params_def)
qed




text \<open>
  Claim C6, as stated, fails: with two batches of which the last one is active, the run
  on twenty particles in the unit box returns, and its first call of
  \<^verbatim>\<open>calculate_keff\<close> has \<open>n = i_a + 1 = 0\<close>.
\<close>

theorem run_eigenvalue_keff_calls_counterexample:
  "returned inactive_run \<and> map fst (keff_log (run_state inactive_run)) = [0, 1]"
proof -
  have "length (keff_log (run_state inactive_run)) = nat (n_batches inactive_params)"
    using run_eigenvalue_effect[OF inactive_run_def] returned_not_faulted[OF inactive_run_returns]
    by blast
  then have l: "length (keff_log (run_state inactive_run)) = 2"
    by (simp add: inactive_params_def)
  have u: "[0..int 2 - 1] = [0, 1]"
    by (simp add: upto_rec1)
  have "map fst (keff_log (run_state inactive_run)) = map (active_batches inactive_params) [0, 1]"
    using run_eigenvalue_effect[OF inactive_run_def] unfolding l u by blast
  then show ?thesis
    using inactive_run_returns
    by (simp add: active_batches_def inactive_params_def driver_params_def)
qed

text \<open>
  Claim C6, amended. The driver calls \<^verbatim>\<open>calculate_keff\<close> once at the end of every batch
  \<open>i_b\<close> that it completes, the batches \<open>0, ..., k - 1\<close> (all \<open>n_batches\<close> unless the
  behaviour of the run is undefined), with \<open>n = i_a + 1\<close> the number of active batches
  among \<open>0, ..., i_b\<close>: \<open>n \<ge> 1\<close> exactly in the active batches
  (\<open>i_b \<ge> n_batches - n_active\<close>) and \<open>n = 0\<close> in every inactive batch. The status line of
  the batch prints the mean and the standard deviation that the call stored when
  \<open>n \<ge> 1\<close>, and neither of them when \<open>n = 0\<close>.
\<close>

theorem run_eigenvalue_keff_calls:
  assumes r: "r = run_eigenvalue transport rni fwrite ps g st t_on keff0"
    and k: "k = length (keff_log (run_state r))"
  shows "map fst (keff_log (run_state r)) = map (active_batches ps) [0..int k - 1]
       \<and> k \<le> nat (n_batches ps)
       \<and> (\<not> faulted r \<longrightarrow> k = nat (n_batches ps))
       \<and> status_lines (events (run_state r)) =
           map status_of_call (zip [0..int k - 1] (keff_log (run_state r)))
       \<and> (\<forall>i_b \<ge> 0. (1 \<le> active_batches ps i_b) = (n_batches ps - n_active ps \<le> i_b))
       \<and> (\<forall>i_b. i_b < n_batches ps - n_active ps \<longrightarrow> active_batches ps i_b = 0)"
proof -
  have 2: "(1 \<le> active_batches ps i_b) = (n_batches ps - n_active ps \<le> i_b)" if "0 \<le> i_b" for i_b
    using that by (auto simp: active_batches_def max_def)
  have 3: "active_batches ps i_b = 0" if "i_b < n_batches ps - n_active ps" for i_b
    using that by (simp add: active_batches_def)
  show ?thesis using run_eigenvalue_effect[OF r] 2 3 unfolding k by blast
qed

theorem run_eigenvalue_keff_calls_witness:
  "returned driver_run
   \<and> map fst (keff_log (run_state driver_run)) = [0, 1, 2]
   \<and> map fst (status_lines (events (run_state driver_run))) = [1, 2, 3]
   \<and> snd (status_lines (events (run_state driver_run)) ! 0) = None
   \<and> active_batches driver_params 0 = 0
   \<and> (1 \<le> active_batches driver_params 1) = (n_batches driver_params - n_active driver_params \<le> 1)"
proof -
  note t = run_eigenvalue_keff_calls[OF driver_run_def refl]
  have l: "length (keff_log (run_state driver_run)) = 3"
    using t returned_not_faulted[OF driver_run_returns] by (simp add: driver_params_def)
  have u: "[0..int 3 - 1] = [0, 1, 2]"
    by (simp add: upto_rec1)
  have a: "map fst (keff_log (run_state driver_run)) = [0, 1, 2]"
    using t unfolding l u by (simp add: active_batches_def driver_params_def)
  obtain c0 c1 c2 where c: "keff_log (run_state driver_run) = [c0, c1, c2]"
    using l by (auto simp: length_Suc_conv eval_nat_numeral)
  have s: "status_lines (events (run_state driver_run)) =
           map status_of_call (zip [0, 1, 2] (keff_log (run_state driver_run)))"
    using t unfolding l u by blast
  have f: "fst c0 = 0" using a c by simp
  have b: "(1 \<le> active_batches driver_params 1) = (n_batches driver_params - n_active driver_params \<le> 1)"
    using t by simp
  have d: "active_batches driver_params 0 = 0"
    using t by (simp add: driver_params_def)
  show ?thesis
    using driver_run_returns a b d f unfolding s c
    by (cases c0; cases c1; cases c2) (simp add: status_of_call_def)
qed

end
